theory Spec2Isabelle
  imports Main
begin

section \<open>Calendar dates (the dayjs values the date picker works on)\<close>

text \<open>
  A \<open>Dayjs\<close> value is a calendar date with a time of day. The picker only ever reads
  its year, its month (0 = January .. 11 = December), its day of the month and its weekday,
  sets the day of the month, and adds months; the time of day is carried along unchanged.
\<close>

record Dayjs =
  year :: int
  month :: nat
  date :: nat
  millis :: nat

definition isLeapYear :: "int \<Rightarrow> bool" where
  "isLeapYear y = (y mod 4 = 0 \<and> (y mod 100 \<noteq> 0 \<or> y mod 400 = 0))"

definition monthLength :: "int \<Rightarrow> nat \<Rightarrow> nat" where
  "monthLength y m =
     (if m = 1 then (if isLeapYear y then 29 else 28)
      else if m = 3 \<or> m = 5 \<or> m = 8 \<or> m = 10 then 30 else 31)"

fun daysBeforeMonth :: "int \<Rightarrow> nat \<Rightarrow> nat" where
  "daysBeforeMonth y 0 = 0"
| "daysBeforeMonth y (Suc m) = daysBeforeMonth y m + monthLength y m"

text \<open>Days from 0001-01-01 (a Monday in the proleptic Gregorian calendar) to January 1st of \<open>y\<close>.\<close>

definition daysBeforeYear :: "int \<Rightarrow> int" where
  "daysBeforeYear y = 365 * (y - 1) + (y - 1) div 4 - (y - 1) div 100 + (y - 1) div 400"

text \<open>\<open>d.day()\<close>: the weekday, 0 = Sunday .. 6 = Saturday.\<close>

definition dayjs_day :: "Dayjs \<Rightarrow> int" where
  "dayjs_day d =
     (daysBeforeYear (year d) + 1 + int (daysBeforeMonth (year d) (month d)) + (int (date d) - 1)) mod 7"

text \<open>\<open>d.set("date", n)\<close> and \<open>d.date(n)\<close>, used by the picker with \<open>n\<close> inside the month only.\<close>

definition set_date :: "Dayjs \<Rightarrow> nat \<Rightarrow> Dayjs" where
  "set_date d n = d\<lparr>date := n\<rparr>"

text \<open>
  \<open>d.add(n, "month")\<close>: the month index moves by \<open>n\<close>, carrying into the year, and the
  day of the month is clamped to the length of the month reached.
\<close>

definition add_month :: "Dayjs \<Rightarrow> int \<Rightarrow> Dayjs" where
  "add_month d n =
     (let t = year d * 12 + int (month d) + n;
          y = t div 12;
          m = nat (t mod 12)
      in d\<lparr>year := y, month := m, date := min (date d) (monthLength y m)\<rparr>)"

subsection \<open>Helpers of \<open>@calcom/lib/date-fns\<close>\<close>

text \<open>
  Modelled from the spec: \<open>daysInMonth\<close> of \<open>@calcom/lib/date-fns\<close> is imported by the
  date picker but its body is not part of the sources at hand; the specification uses it as
  \<open>daysInMonth(month)\<close>, the number of calendar dates of the month of the given date.
\<close>

definition daysInMonth :: "Dayjs \<Rightarrow> nat" where
  "daysInMonth d = monthLength (year d) (month d)"

fun digits :: "nat \<Rightarrow> string" where
  "digits n = (if n < 10 then [''0123456789'' ! n] else digits (n div 10) @ [''0123456789'' ! (n mod 10)])"

declare digits.simps [simp del]

definition padStart :: "nat \<Rightarrow> char \<Rightarrow> string \<Rightarrow> string" where
  "padStart n c s = replicate (n - length s) c @ s"

text \<open>
  Modelled from the spec: \<open>yyyymmdd\<close> of \<open>@calcom/lib/date-fns\<close> is imported by the date
  picker but its body is not part of the sources at hand; the specification describes its
  result as the normalized \<open>YYYY-MM-DD\<close> date-string of a date (month printed 1-based, month
  and day on two digits, the year on four). Years before 0 are outside the format and are
  printed with a leading minus sign.
\<close>

definition yyyymmdd :: "Dayjs \<Rightarrow> string" where
  "yyyymmdd d =
     (if year d < 0 then ''-'' else '''') @ padStart 4 (CHR ''0'') (digits (nat \<bar>year d\<bar>)) @ ''-'' @
     padStart 2 (CHR ''0'') (digits (Suc (month d))) @ ''-'' @
     padStart 2 (CHR ''0'') (digits (date d))"

section \<open>JavaScript array primitives used by the picker\<close>

datatype error = RangeError | TypeError

text \<open>\<open>a % b\<close> on integers: the remainder takes the sign of the dividend.\<close>

definition js_rem :: "int \<Rightarrow> int \<Rightarrow> int" where
  "js_rem a b = (if a < 0 then - ((- a) mod \<bar>b\<bar>) else a mod \<bar>b\<bar>)"

text \<open>\<open>Array(n).fill(null)\<close>: a negative length raises \<open>RangeError: Invalid array length\<close>.\<close>

definition Array_fill_null :: "int \<Rightarrow> error + 'a option list" where
  "Array_fill_null n = (if n < 0 then Inl RangeError else Inr (replicate (nat n) None))"

text \<open>\<open>xs.slice(i, j)\<close> for \<open>0 \<le> i\<close>: both ends are clamped to the array.\<close>

definition slice :: "'a list \<Rightarrow> nat \<Rightarrow> nat \<Rightarrow> 'a list" where
  "slice xs i j = take (j - i) (drop i xs)"

text \<open>\<open>xs.findIndex(p)\<close>: the first index whose element satisfies \<open>p\<close>, or \<open>-1\<close>.\<close>

fun findIndex :: "('a \<Rightarrow> bool) \<Rightarrow> 'a list \<Rightarrow> int" where
  "findIndex p [] = - 1"
| "findIndex p (x # xs) =
     (if p x then 0 else (let r = findIndex p xs in if r = - 1 then - 1 else r + 1))"

section \<open>\<open>useCalendarDays\<close>\<close>

record DayObject =
  day :: "Dayjs option"
  disabled :: bool

record UseCalendarDaysProps =
  browsingDate :: Dayjs
  weekStart :: int
  minDate :: "Dayjs option"
  includedDates :: "string list option"
  excludedDates :: "string list option"
  showOneMonth :: "bool option"

text \<open>
  \<open>getAvailableDatesInMonth\<close> (\<open>@calcom/features/calendars/lib\<close>) is imported by the picker
  and called with \<open>browsingDate\<close>, \<open>minDate\<close> and \<open>includedDates\<close>; its body is not part of
  the sources at hand, so the hook takes it as a parameter of this type. It returns an array
  of date-strings.
\<close>

type_synonym availableDatesFn = "Dayjs \<Rightarrow> Dayjs option \<Rightarrow> string list \<Rightarrow> string list"

definition weekdayOfFirst :: "Dayjs \<Rightarrow> int" where
  "weekdayOfFirst bd = dayjs_day (set_date bd 1)"

text \<open>The counting loop \<open>for (let day = 1; day <= dayCount; day++) acc.push(b.set("date", day))\<close>.\<close>

function pushDays :: "Dayjs \<Rightarrow> nat \<Rightarrow> nat \<Rightarrow> Dayjs option list \<Rightarrow> Dayjs option list" where
  "pushDays b dayN dayCount acc =
     (if dayN \<le> dayCount then pushDays b (Suc dayN) dayCount (acc @ [Some (set_date b dayN)]) else acc)"
  by pat_completeness auto
termination
  by (relation "measure (\<lambda>(b, dayN, dayCount, acc). Suc dayCount - dayN)") auto

declare pushDays.simps [simp del]

definition days :: "Dayjs \<Rightarrow> int \<Rightarrow> error + Dayjs option list" where
  "days bd ws =
     (case Array_fill_null (js_rem (weekdayOfFirst bd - ws + 7) 7) of
        Inl e \<Rightarrow> Inl e
      | Inr pad \<Rightarrow> Inr (pushDays bd 1 (daysInMonth bd) pad))"

definition nextMonthDays :: "Dayjs \<Rightarrow> int \<Rightarrow> error + Dayjs option list" where
  "nextMonthDays bd ws =
     (case Array_fill_null (js_rem (weekdayOfFirst bd - ws + 7) 7) of
        Inl e \<Rightarrow> Inl e
      | Inr pad \<Rightarrow> Inr (pushDays (add_month bd 1) 1 (daysInMonth (add_month bd 1)) pad))"

definition daysToRenderForTheMonth :: "Dayjs option list \<Rightarrow> string list \<Rightarrow> string list \<Rightarrow> DayObject list" where
  "daysToRenderForTheMonth ds includedDatesInMonth excluded =
     map (\<lambda>d. case d of
                 None \<Rightarrow> \<lparr>day = None, disabled = True\<rparr>
               | Some dt \<Rightarrow> \<lparr>day = Some dt,
                             disabled = (yyyymmdd dt \<notin> set includedDatesInMonth \<or> yyyymmdd dt \<in> set excluded)\<rparr>) ds"

definition daysToRenderForNextMonth :: "Dayjs option list \<Rightarrow> string list \<Rightarrow> DayObject list" where
  "daysToRenderForNextMonth ds included =
     map (\<lambda>d. case d of
                 None \<Rightarrow> \<lparr>day = None, disabled = True\<rparr>
               | Some dt \<Rightarrow> \<lparr>day = Some dt, disabled = (yyyymmdd dt \<notin> set included)\<rparr>) ds"

definition availableDaysForTheMonth :: "DayObject list \<Rightarrow> DayObject list" where
  "availableDaysForTheMonth rendered = filter (\<lambda>d. \<not> disabled d) rendered"

definition shouldRenderNextMonth :: "bool option \<Rightarrow> string list \<Rightarrow> DayObject list \<Rightarrow> string list \<Rightarrow> bool" where
  "shouldRenderNextMonth oneMonth includedDatesInMonth available includedDatesNextMonth =
     (if oneMonth = Some True then False
      else (length includedDatesInMonth > 0 \<and> length available < 7 \<and> length includedDatesNextMonth > 0))"

definition allDays :: "bool \<Rightarrow> DayObject list \<Rightarrow> DayObject list \<Rightarrow> DayObject list" where
  "allDays renderNext forMonth forNextMonth =
     (if renderNext then forMonth @ filter (\<lambda>d. day d \<noteq> None) forNextMonth else forMonth)"

text \<open>The chunking loop \<open>for (let i = 0; i < allDays.length; i += 7) groupedWeeks.push(allDays.slice(i, i + 7))\<close>.\<close>

function groupLoop :: "DayObject list \<Rightarrow> nat \<Rightarrow> DayObject list list \<Rightarrow> DayObject list list" where
  "groupLoop ds i acc =
     (if i < length ds then groupLoop ds (i + 7) (acc @ [slice ds i (i + 7)]) else acc)"
  by pat_completeness auto
termination
  by (relation "measure (\<lambda>(ds, i, acc). length ds - i)") auto

declare groupLoop.simps [simp del]

definition hasAvailableDays :: "DayObject list \<Rightarrow> bool" where
  "hasAvailableDays week = list_ex (\<lambda>d. \<not> disabled d) week"

text \<open>
  The loop that retains the weeks from the first to the last available one: it adds the
  week's available days to the count, keeps the week, and breaks once the count reaches 7.
  The pair is \<open>(boundedWeeks, availableDaysCount)\<close>.
\<close>

function boundLoop ::
  "DayObject list list \<Rightarrow> nat \<Rightarrow> nat \<Rightarrow> DayObject list list \<times> nat \<Rightarrow> DayObject list list \<times> nat" where
  "boundLoop groupedWeeks i lastIdx st =
     (if i \<le> lastIdx then
        (let week = groupedWeeks ! i;
             availableDaysCount = snd st + length (filter (\<lambda>d. \<not> disabled d) week);
             boundedWeeks = fst st @ [week]
         in if availableDaysCount \<ge> 7 then (boundedWeeks, availableDaysCount)
            else boundLoop groupedWeeks (Suc i) lastIdx (boundedWeeks, availableDaysCount))
      else st)"
  by pat_completeness auto
termination
  by (relation "measure (\<lambda>(g, i, lastIdx, st). Suc lastIdx - i)") auto

declare boundLoop.simps [simp del]

text \<open>
  The \<open>weeks\<close> memo. \<open>boundLoop\<close> only reads \<open>groupedWeeks[i]\<close> for indices between the two
  \<open>findIndex\<close> results, which lie inside the array. \<open>week === boundedWeeks[0]\<close> compares
  array references; every element of \<open>groupedWeeks\<close> is a fresh array made by \<open>slice\<close>, and
  the search is modelled by equality of contents (lemma \<open>currentWeekIndex_is_first\<close> shows
  that it finds the very week that was put first into \<open>boundedWeeks\<close>). On an empty
  \<open>boundedWeeks\<close> the element \<open>boundedWeeks[0]\<close> is \<open>undefined\<close> and no week is found.
\<close>

definition weeks :: "DayObject list \<Rightarrow> nat \<Rightarrow> bool \<Rightarrow> DayObject list list" where
  "weeks ds includedDatesInMonth_length renderNext =
     (let groupedWeeks = groupLoop ds 0 [] in
      if includedDatesInMonth_length = 0 \<or> \<not> renderNext then groupedWeeks
      else
        let firstAvailableIndex = findIndex hasAvailableDays groupedWeeks;
            lastAvailableIndex = findIndex hasAvailableDays (rev groupedWeeks);
            adjustedLastAvailableIndex =
              (if lastAvailableIndex = - 1 then - 1
               else int (length groupedWeeks) - 1 - lastAvailableIndex);
            bounded =
              (if firstAvailableIndex \<noteq> - 1 \<and> adjustedLastAvailableIndex \<noteq> - 1
               then boundLoop groupedWeeks (nat firstAvailableIndex) (nat adjustedLastAvailableIndex) ([], 0)
               else ([], 0));
            boundedWeeks = fst bounded;
            availableDaysCount = snd bounded
        in if length boundedWeeks < 5 \<and> availableDaysCount < 14 then
             (let currentWeekIndex =
                    (case boundedWeeks of [] \<Rightarrow> - 1
                     | w # _ \<Rightarrow> findIndex (\<lambda>week. week = w) groupedWeeks)
              in if currentWeekIndex \<noteq> - 1
                 then slice groupedWeeks (nat currentWeekIndex) (nat currentWeekIndex + 5)
                 else boundedWeeks)
           else boundedWeeks)"

record CalendarDays =
  cd_daysToRenderForTheMonth :: "DayObject list"
  cd_daysToRenderForNextMonth :: "DayObject list"
  cd_shouldRenderNextMonth :: bool
  cd_includedDatesInMonth :: "string list"
  cd_includedDatesNextMonth :: "string list"
  cd_weeks :: "DayObject list list"

text \<open>The destructuring defaults \<open>includedDates = []\<close> and \<open>excludedDates = []\<close>.\<close>

definition included_of :: "UseCalendarDaysProps \<Rightarrow> string list" where
  "included_of p = (case includedDates p of None \<Rightarrow> [] | Some xs \<Rightarrow> xs)"

definition excluded_of :: "UseCalendarDaysProps \<Rightarrow> string list" where
  "excluded_of p = (case excludedDates p of None \<Rightarrow> [] | Some xs \<Rightarrow> xs)"

text \<open>
  The hook itself. Both \<open>Array(n)\<close> calls get the same length, so either both raise or
  none does. The result of \<open>getAvailableDatesInMonth\<close> is an array, hence truthy even when
  empty: the guard \<open>includedDatesInMonth &&\<close> in \<open>daysToRenderForTheMonth\<close> never fails.
\<close>

definition useCalendarDays :: "availableDatesFn \<Rightarrow> UseCalendarDaysProps \<Rightarrow> error + CalendarDays" where
  "useCalendarDays getAvailableDatesInMonth p =
     (let bd = browsingDate p;
          included = included_of p;
          excluded = excluded_of p;
          includedDatesInMonth = getAvailableDatesInMonth bd (minDate p) included;
          includedDatesNextMonth = getAvailableDatesInMonth (add_month bd 1) (minDate p) included
      in case days bd (weekStart p) of
           Inl e \<Rightarrow> Inl e
         | Inr ds \<Rightarrow>
            (case nextMonthDays bd (weekStart p) of
               Inl e \<Rightarrow> Inl e
             | Inr nds \<Rightarrow>
                (let forMonth = daysToRenderForTheMonth ds includedDatesInMonth excluded;
                     forNextMonth = daysToRenderForNextMonth nds included;
                     renderNext = shouldRenderNextMonth (showOneMonth p) includedDatesInMonth
                                    (availableDaysForTheMonth forMonth) includedDatesNextMonth;
                     ads = allDays renderNext forMonth forNextMonth
                 in Inr \<lparr>cd_daysToRenderForTheMonth = forMonth,
                          cd_daysToRenderForNextMonth = forNextMonth,
                          cd_shouldRenderNextMonth = renderNext,
                          cd_includedDatesInMonth = includedDatesInMonth,
                          cd_includedDatesNextMonth = includedDatesNextMonth,
                          cd_weeks = weeks ads (length includedDatesInMonth) renderNext\<rparr>)))"

subsection \<open>The availability helper\<close>

text \<open>Calendar order of two dates: by year, then month, then day of the month.\<close>

definition date_less :: "Dayjs \<Rightarrow> Dayjs \<Rightarrow> bool" where
  "date_less a b =
     (year a < year b \<or> (year a = year b \<and> (month a < month b \<or> (month a = month b \<and> date a < date b))))"

text \<open>
  Modelled from the spec: \<open>getAvailableDatesInMonth\<close> of \<open>@calcom/features/calendars/lib\<close>
  is imported by the date picker but its body is not part of the sources at hand. The
  specification calls its input the availability set, the date-strings of the bookable days:
  a day is enabled iff its date-string is a member, or no restriction is supplied. The
  picker's props document \<open>includedDates\<close> as defaulting to all dates and \<open>minDate\<close> as
  defaulting to the current date. The model returns, in calendar order, the date-strings of
  the dates of the browsed month that are neither before the browsing date nor before
  \<open>minDate\<close> (the current date \<open>now\<close> when \<open>minDate\<close> is absent) and that are members of
  \<open>includedDates\<close>, an empty \<open>includedDates\<close> being no restriction. The theorems about the
  hook hold for every helper; the model serves the concrete runs and the dependence on the
  current date.
\<close>

definition getAvailableDatesInMonth :: "Dayjs \<Rightarrow> availableDatesFn" where
  "getAvailableDatesInMonth now bd minD included =
     (let m = (case minD of None \<Rightarrow> now | Some d \<Rightarrow> d);
          start = (if date_less m bd then bd else m)
      in filter (\<lambda>s. included = [] \<or> s \<in> set included)
           (map yyyymmdd
              (filter (\<lambda>d. \<not> date_less d start) (map (set_date bd) [1..<Suc (daysInMonth bd)]))))"

section \<open>\<open>Days\<close>: selection and the month transition\<close>

text \<open>The prop \<open>selected?: Dayjs | Dayjs[] | null\<close>.\<close>

datatype Selected = NoSelection | SingleDate Dayjs | DateArray "Dayjs list"

text \<open>
  \<open>yyyymmdd(dayjs(key))\<close> for a key of the per-event selection: \<open>dayjs\<close> parses the string
  (the parser is a parameter; \<open>None\<close> is an invalid date, which formats as
  \<open>"Invalid Date"\<close>).
\<close>

definition yyyymmdd_of_key :: "(string \<Rightarrow> Dayjs option) \<Rightarrow> string \<Rightarrow> string" where
  "yyyymmdd_of_key parse k = (case parse k of None \<Rightarrow> ''Invalid Date'' | Some d \<Rightarrow> yyyymmdd d)"

text \<open>
  Reading a property \<open>obj[k]\<close> and listing \<open>Object.keys(obj)\<close>. An object is kept as
  an association list in key order; \<open>None\<close> is \<open>null\<close> or \<open>undefined\<close>, on which both
  operations raise a \<open>TypeError\<close>. A property that is not there reads as \<open>undefined\<close>.
\<close>

definition get_property :: "(string \<times> 'v) list option \<Rightarrow> string \<Rightarrow> error + 'v option" where
  "get_property obj k = (case obj of None \<Rightarrow> Inl TypeError | Some kvs \<Rightarrow> Inr (map_of kvs k))"

definition Object_keys :: "(string \<times> 'v) list option \<Rightarrow> error + string list" where
  "Object_keys obj = (case obj of None \<Rightarrow> Inl TypeError | Some kvs \<Rightarrow> Inr (map fst kvs))"

text \<open>Sequencing of two steps, the first of which may raise.\<close>

definition bind_result :: "error + 'a \<Rightarrow> ('a \<Rightarrow> error + 'b) \<Rightarrow> error + 'b" where
  "bind_result r f = (case r of Inl e \<Rightarrow> Inl e | Inr v \<Rightarrow> f v)"

text \<open>
  \<open>isActive\<close>. \<open>eventSlug\<close> is an optional string (absent and empty are both falsy);
  \<open>selectedDatesAndTimes\<close> is the store's nullable object from event slug to an object from
  date-string to the selected times. The condition of the last \<open>if\<close> is a chain of
  \<open>&&\<close>: a later operand is evaluated only when the earlier ones are truthy, and the
  property \<open>selectedDatesAndTimes[eventSlug]\<close> is read anew at each of its three uses.
\<close>

definition isActive ::
  "(string \<Rightarrow> Dayjs option) \<Rightarrow> Selected \<Rightarrow> string option \<Rightarrow>
   (string \<times> (string \<times> string list) list) list option \<Rightarrow> Dayjs \<Rightarrow> error + bool" where
  "isActive parse selected eventSlug selectedDatesAndTimes d =
     (case selected of
        DateArray es \<Rightarrow> Inr (list_ex (\<lambda>e. yyyymmdd e = yyyymmdd d) es)
      | _ \<Rightarrow>
         if (case selected of SingleDate s \<Rightarrow> yyyymmdd s = yyyymmdd d | _ \<Rightarrow> False) then Inr True
         else
           (case eventSlug of
              None \<Rightarrow> Inr False
            | Some slug \<Rightarrow>
               if slug = [] then Inr False
               else if selectedDatesAndTimes = None then Inr False
               else
                 bind_result (get_property selectedDatesAndTimes slug) (\<lambda>entry.
                   if entry = None then Inr False
                   else
                     bind_result (get_property selectedDatesAndTimes slug) (\<lambda>entry.
                     bind_result (Object_keys entry) (\<lambda>ks.
                       if \<not> length ks > 0 then Inr False
                       else
                         bind_result (get_property selectedDatesAndTimes slug) (\<lambda>entry.
                         bind_result (Object_keys entry) (\<lambda>ks.
                           Inr (list_ex (\<lambda>k. yyyymmdd_of_key parse k = yyyymmdd d) ks))))))))"

text \<open>\<open>transitionIndex\<close> of a rendered week: the cell holding day 1 of the month after the browsed one.\<close>

definition transitionIndex :: "Dayjs \<Rightarrow> DayObject list \<Rightarrow> int" where
  "transitionIndex bd week =
     findIndex (\<lambda>c. case day c of None \<Rightarrow> False
                    | Some d \<Rightarrow> date d = 1 \<and> month d = month (add_month bd 1)) week"

section \<open>\<open>DatePicker\<close>: month navigation\<close>

text \<open>
  The picker's own state is the flag \<open>autoNavigating\<close> (initially true). The browsing date
  belongs to the parent: the picker only reports a new month through \<open>onMonthChange\<close>, an
  optional callback; \<open>monthChanges\<close> records the calls made, oldest first.
\<close>

record PickerState =
  autoNavigating :: bool
  monthChanges :: "Dayjs list"

definition initialPickerState :: PickerState where
  "initialPickerState = \<lparr>autoNavigating = True, monthChanges = []\<rparr>"

definition changeMonth :: "bool \<Rightarrow> Dayjs \<Rightarrow> int \<Rightarrow> PickerState \<Rightarrow> PickerState" where
  "changeMonth hasOnMonthChange bd newMonth s =
     \<lparr>autoNavigating = False,
      monthChanges = (if hasOnMonthChange then monthChanges s @ [add_month bd newMonth] else monthChanges s)\<rparr>"

text \<open>The auto-navigate effect, run with the lengths of the two availability arrays.\<close>

definition autoNavigateEffect :: "bool \<Rightarrow> Dayjs \<Rightarrow> nat \<Rightarrow> nat \<Rightarrow> PickerState \<Rightarrow> PickerState" where
  "autoNavigateEffect hasOnMonthChange bd includedDatesInMonth_length includedDatesNextMonth_length s =
     (if autoNavigating s \<and> includedDatesInMonth_length = 0 \<and> includedDatesNextMonth_length > 0
      then changeMonth hasOnMonthChange bd 1 s
      else s\<lparr>autoNavigating := False\<rparr>)"

text \<open>
  What can happen to a mounted picker: the effect runs (for the browsing date and the
  availability lengths of that render), or the user clicks one of the two month buttons.
\<close>

datatype event = EffectRun Dayjs nat nat | ManualNavigation Dayjs int

fun step :: "bool \<Rightarrow> PickerState \<Rightarrow> event \<Rightarrow> PickerState" where
  "step cb s (EffectRun bd n0 n1) = autoNavigateEffect cb bd n0 n1 s"
| "step cb s (ManualNavigation bd k) = changeMonth cb bd k s"

definition run :: "bool \<Rightarrow> PickerState \<Rightarrow> event list \<Rightarrow> PickerState" where
  "run cb s es = foldl (step cb) s es"

text \<open>Whether an event is an effect run that navigates (an automatic advance).\<close>

fun autoAdvances :: "PickerState \<Rightarrow> event \<Rightarrow> bool" where
  "autoAdvances s (EffectRun bd n0 n1) = (autoNavigating s \<and> n0 = 0 \<and> n1 > 0)"
| "autoAdvances s (ManualNavigation bd k) = False"

section \<open>Notions used to state the properties\<close>

text \<open>The number of leading padding cells, and the dates of the month of a date, in order.\<close>

definition paddingBeforeFirst :: "Dayjs \<Rightarrow> int \<Rightarrow> nat" where
  "paddingBeforeFirst bd ws = nat ((weekdayOfFirst bd - ws + 7) mod 7)"

definition monthDates :: "Dayjs \<Rightarrow> Dayjs list" where
  "monthDates bd = map (set_date bd) [1..<Suc (daysInMonth bd)]"

text \<open>The three kinds of cell the hook builds.\<close>

definition nullCell :: DayObject where
  "nullCell = \<lparr>day = None, disabled = True\<rparr>"

definition monthCell :: "string list \<Rightarrow> string list \<Rightarrow> Dayjs \<Rightarrow> DayObject" where
  "monthCell a e d = \<lparr>day = Some d, disabled = (yyyymmdd d \<notin> set a \<or> yyyymmdd d \<in> set e)\<rparr>"

definition nextCell :: "string list \<Rightarrow> Dayjs \<Rightarrow> DayObject" where
  "nextCell a d = \<lparr>day = Some d, disabled = (yyyymmdd d \<notin> set a)\<rparr>"

text \<open>Cutting a list into consecutive groups of 7, the last one possibly shorter.\<close>

fun chunk7 :: "'a list \<Rightarrow> 'a list list" where
  "chunk7 [] = []"
| "chunk7 (x # xs) = take 7 (x # xs) # chunk7 (drop 7 (x # xs))"

text \<open>Concrete browsing dates used in the examples.\<close>

definition may24 :: Dayjs where
  "may24 = \<lparr>year = 2024, month = 4, date = 16, millis = 0\<rparr>"

definition feb24 :: Dayjs where
  "feb24 = \<lparr>year = 2024, month = 1, date = 10, millis = 0\<rparr>"

definition june24 :: Dayjs where
  "june24 = \<lparr>year = 2024, month = 5, date = 1, millis = 0\<rparr>"

definition feb26 :: Dayjs where
  "feb26 = \<lparr>year = 2026, month = 1, date = 1, millis = 0\<rparr>"

definition july24 :: Dayjs where
  "july24 = \<lparr>year = 2024, month = 6, date = 1, millis = 0\<rparr>"

definition march26 :: Dayjs where
  "march26 = \<lparr>year = 2026, month = 2, date = 1, millis = 0\<rparr>"

text \<open>
  The dates a selection names: those of the array; or the single date together with the
  dates the keys of the per-event selection parse to; or those alone. The keys count only
  for a non-empty event slug that has an entry in the store, and a key that does not parse
  names no date.
\<close>

definition keyedDates ::
  "(string \<Rightarrow> Dayjs option) \<Rightarrow> string option \<Rightarrow>
   (string \<times> (string \<times> string list) list) list option \<Rightarrow> Dayjs list" where
  "keyedDates parse eventSlug selectedDatesAndTimes =
     (case eventSlug of
        None \<Rightarrow> []
      | Some slug \<Rightarrow>
          (case selectedDatesAndTimes of
             None \<Rightarrow> []
           | Some store \<Rightarrow>
               (if slug = [] then []
                else (case map_of store slug of
                        None \<Rightarrow> []
                      | Some perDate \<Rightarrow> List.map_filter (\<lambda>kv. parse (fst kv)) perDate))))"

definition selectedDates ::
  "(string \<Rightarrow> Dayjs option) \<Rightarrow> Selected \<Rightarrow> string option \<Rightarrow>
   (string \<times> (string \<times> string list) list) list option \<Rightarrow> Dayjs list" where
  "selectedDates parse selected eventSlug selectedDatesAndTimes =
     (case selected of
        DateArray es \<Rightarrow> es
      | SingleDate s \<Rightarrow> s # keyedDates parse eventSlug selectedDatesAndTimes
      | NoSelection \<Rightarrow> keyedDates parse eventSlug selectedDatesAndTimes)"

text \<open>
  A per-event selection whose one parsable key is a full timestamp, not a \<open>YYYY-MM-DD\<close>
  string, and a parser that knows this timestamp only.
\<close>

definition demoParse :: "string \<Rightarrow> Dayjs option" where
  "demoParse k =
     (if k = ''2024-06-06T09:30:00.000Z''
      then Some \<lparr>year = 2024, month = 5, date = 6, millis = 34200000\<rparr> else None)"

definition demoStore :: "(string \<times> (string \<times> string list) list) list option" where
  "demoStore = Some [(''demo'', [(''not a date'', []), (''2024-06-06T09:30:00.000Z'', [''09:30''])])]"

text \<open>The available (enabled) cells of a week, and of a run of weeks.\<close>

definition countAvailable :: "DayObject list \<Rightarrow> nat" where
  "countAvailable w = length (filter (\<lambda>d. \<not> disabled d) w)"

definition totalAvailable :: "DayObject list list \<Rightarrow> nat" where
  "totalAvailable ws = sum_list (map countAvailable ws)"

text \<open>Props for browsing June 2024 with Sunday as week start and \<open>minDate\<close> 1 June 2024.\<close>

definition props_june :: "string list option \<Rightarrow> string list option \<Rightarrow> bool option \<Rightarrow> UseCalendarDaysProps" where
  "props_june inc exc one =
     \<lparr>browsingDate = june24, weekStart = 0, minDate = Some june24, includedDates = inc,
      excludedDates = exc, showOneMonth = one\<rparr>"

definition incl_two :: "string list" where
  "incl_two = [''2024-06-05'', ''2024-06-06'']"

definition incl_blocked :: "string list" where
  "incl_blocked = [''2024-06-05'', ''2024-07-01'']"

definition incl_cutover :: "string list" where
  "incl_cutover = [''2024-06-30'', ''2024-07-01'', ''2024-07-02'', ''2024-07-03'', ''2024-07-04'',
                   ''2024-07-05'', ''2024-07-06'']"



text \<open>
  The combined day sequence when June 2024 is browsed with \<open>incl_cutover\<close> included: six
  padding cells, June with only the 30th enabled, July with only the first six days enabled.
\<close>

definition cells_cutover :: "DayObject list" where
  "cells_cutover =
     replicate 6 nullCell @
     map (\<lambda>k. \<lparr>day = Some (set_date june24 k), disabled = (k \<noteq> 30)\<rparr>)
       [1,2,3,4,5,6,7,8,9,10,11,12,13,14,15,16,17,18,19,20,21,22,23,24,25,26,27,28,29,30] @
     map (\<lambda>k. \<lparr>day = Some (set_date july24 k), disabled = (6 < k)\<rparr>)
       [1,2,3,4,5,6,7,8,9,10,11,12,13,14,15,16,17,18,19,20,21,22,23,24,25,26,27,28,29,30,31]"

text \<open>
  The test \<open>Days\<close> applies to find the transition cell of a week, and the combined day
  sequence of a continuation: padding, the cells of the month, the cells of the next month.
\<close>

definition isTransitionCell :: "Dayjs \<Rightarrow> DayObject \<Rightarrow> bool" where
  "isTransitionCell bd c =
     (case day c of None \<Rightarrow> False | Some d \<Rightarrow> date d = 1 \<and> month d = month (add_month bd 1))"

definition combinedDays :: "nat \<Rightarrow> string list \<Rightarrow> string list \<Rightarrow> string list \<Rightarrow> Dayjs \<Rightarrow> DayObject list" where
  "combinedDays pad a e inc bd =
     replicate pad nullCell @ map (monthCell a e) (monthDates bd) @
     map (nextCell inc) (monthDates (add_month bd 1))"

text \<open>
  Browsing February 2026, a month of exactly four weeks when the week starts on Sunday, with
  one date of February and one of March included, and the resulting combined day sequence.
\<close>

definition incl_feb :: "string list" where
  "incl_feb = [''2026-02-10'', ''2026-03-03'']"

definition props_feb :: UseCalendarDaysProps where
  "props_feb =
     \<lparr>browsingDate = feb26, weekStart = 0, minDate = Some feb26, includedDates = Some incl_feb,
      excludedDates = None, showOneMonth = None\<rparr>"

definition cells_feb :: "DayObject list" where
  "cells_feb =
     replicate 0 nullCell @
     map (\<lambda>k. \<lparr>day = Some (set_date feb26 k), disabled = (k \<noteq> 10)\<rparr>)
       [1,2,3,4,5,6,7,8,9,10,11,12,13,14,15,16,17,18,19,20,21,22,23,24,25,26,27,28] @
     map (\<lambda>k. \<lparr>day = Some (set_date march26 k), disabled = (k \<noteq> 3)\<rparr>)
       [1,2,3,4,5,6,7,8,9,10,11,12,13,14,15,16,17,18,19,20,21,22,23,24,25,26,27,28,29,30,31]"

section \<open>Basic facts about the building blocks\<close>

lemma pushDays_eq: "pushDays b i n acc = acc @ map (\<lambda>k. Some (set_date b k)) [i..<Suc n]"
proof (induction b i n acc rule: pushDays.induct)
  case (1 b dayN dayCount acc)
  show ?case
  proof (cases "dayN \<le> dayCount")
    case True
    then have "[dayN..<Suc dayCount] = dayN # [Suc dayN..<Suc dayCount]"
      by (simp add: upt_conv_Cons)
    with True 1 show ?thesis
      by (simp add: pushDays.simps [of b dayN])
  next
    case False
    then show ?thesis by (simp add: pushDays.simps [of b dayN])
  qed
qed

lemma weekdayOfFirst_range: "0 \<le> weekdayOfFirst bd \<and> weekdayOfFirst bd \<le> 6"
  by (simp add: weekdayOfFirst_def dayjs_day_def)

lemma js_rem_pad:
  assumes "0 \<le> ws" "ws \<le> 6"
  shows "js_rem (weekdayOfFirst bd - ws + 7) 7 = (weekdayOfFirst bd - ws + 7) mod 7"
  using assms weekdayOfFirst_range [of bd] by (simp add: js_rem_def)

lemma days_eq:
  assumes "0 \<le> ws" "ws \<le> 6"
  shows "days bd ws = Inr (replicate (paddingBeforeFirst bd ws) None @ map Some (monthDates bd))"
  using assms
  by (simp add: days_def js_rem_pad Array_fill_null_def pushDays_eq paddingBeforeFirst_def monthDates_def)

lemma nextMonthDays_eq:
  assumes "0 \<le> ws" "ws \<le> 6"
  shows "nextMonthDays bd ws =
     Inr (replicate (paddingBeforeFirst bd ws) None @ map Some (monthDates (add_month bd 1)))"
  using assms
  by (simp add: nextMonthDays_def js_rem_pad Array_fill_null_def pushDays_eq paddingBeforeFirst_def monthDates_def)

lemma groupLoop_eq: "groupLoop ds i acc = acc @ chunk7 (drop i ds)"
proof (induction ds i acc rule: groupLoop.induct)
  case (1 ds i acc)
  show ?case
  proof (cases "i < length ds")
    case True
    then obtain x xs where dx: "drop i ds = x # xs"
      by (cases "drop i ds") auto
    have "chunk7 (drop i ds) = take 7 (drop i ds) # chunk7 (drop 7 (drop i ds))"
      unfolding dx by (simp del: take_Suc_Cons drop_Suc_Cons)
    moreover have "drop 7 (drop i ds) = drop (i + 7) ds"
      by (simp add: add.commute)
    ultimately show ?thesis
      using True 1 by (simp add: groupLoop.simps [of ds i] slice_def)
  next
    case False
    then show ?thesis by (simp add: groupLoop.simps [of ds i])
  qed
qed

lemma concat_chunk7: "concat (chunk7 xs) = xs"
  by (induction xs rule: chunk7.induct) (simp_all del: take_Suc_Cons drop_Suc_Cons)

lemma chunk7_lengths: "w \<in> set (chunk7 xs) \<Longrightarrow> 1 \<le> length w \<and> length w \<le> 7"
  by (induction xs rule: chunk7.induct) (auto simp del: take_Suc_Cons drop_Suc_Cons)

lemma cell_simps [simp]:
  "day nullCell = None" "disabled nullCell"
  "day (monthCell a e d) = Some d"
  "disabled (monthCell a e d) = (yyyymmdd d \<notin> set a \<or> yyyymmdd d \<in> set e)"
  "day (nextCell a d) = Some d" "disabled (nextCell a d) = (yyyymmdd d \<notin> set a)"
  by (simp_all add: nullCell_def monthCell_def nextCell_def)

lemma forMonth_eq:
  "daysToRenderForTheMonth (replicate n None @ map Some ds) a e =
     replicate n nullCell @ map (monthCell a e) ds"
  by (simp add: daysToRenderForTheMonth_def nullCell_def monthCell_def comp_def)

lemma forNext_eq:
  "daysToRenderForNextMonth (replicate n None @ map Some ds) a =
     replicate n nullCell @ map (nextCell a) ds"
  by (simp add: daysToRenderForNextMonth_def nullCell_def nextCell_def comp_def)

text \<open>With a week start between 0 and 6 the hook returns, and this is what it returns.\<close>

lemma useCalendarDays_eq:
  assumes "0 \<le> weekStart p" "weekStart p \<le> 6"
  shows "useCalendarDays g p =
     (let bd = browsingDate p;
          inMonth = g bd (minDate p) (included_of p);
          inNext = g (add_month bd 1) (minDate p) (included_of p);
          forMonth = replicate (paddingBeforeFirst bd (weekStart p)) nullCell @
                       map (monthCell inMonth (excluded_of p)) (monthDates bd);
          forNextMonth = replicate (paddingBeforeFirst bd (weekStart p)) nullCell @
                           map (nextCell (included_of p)) (monthDates (add_month bd 1));
          renderNext = shouldRenderNextMonth (showOneMonth p) inMonth
                         (availableDaysForTheMonth forMonth) inNext
      in Inr \<lparr>cd_daysToRenderForTheMonth = forMonth,
               cd_daysToRenderForNextMonth = forNextMonth,
               cd_shouldRenderNextMonth = renderNext,
               cd_includedDatesInMonth = inMonth,
               cd_includedDatesNextMonth = inNext,
               cd_weeks = weeks (allDays renderNext forMonth forNextMonth) (length inMonth) renderNext\<rparr>)"
  using assms
  by (simp add: useCalendarDays_def days_eq nextMonthDays_eq forMonth_eq forNext_eq Let_def)

lemma map_day_cells:
  "map day (replicate n nullCell @ map (monthCell a e) ds) = replicate n None @ map Some ds"
  "map day (replicate n nullCell @ map (nextCell a) ds) = replicate n None @ map Some ds"
  by (simp_all add: comp_def)

lemma daysBeforeMonth_numeral:
  "daysBeforeMonth y (numeral k) = daysBeforeMonth y (pred_numeral k) + monthLength y (pred_numeral k)"
  by (simp add: numeral_eq_Suc)

lemmas eval_weekday = weekdayOfFirst_def dayjs_day_def set_date_def daysBeforeYear_def
  daysBeforeMonth_numeral monthLength_def isLeapYear_def daysInMonth_def

subsection \<open>Grouping and trimming\<close>

lemma chunk7_map: "chunk7 (map f xs) = map (map f) (chunk7 xs)"
proof (induction xs rule: chunk7.induct)
  case 1
  then show ?case by simp
next
  case (2 x xs)
  have "chunk7 (map f (x # xs)) = take 7 (map f (x # xs)) # chunk7 (drop 7 (map f (x # xs)))"
    by (simp del: take_Suc_Cons drop_Suc_Cons)
  also have "\<dots> = map f (take 7 (x # xs)) # chunk7 (map f (drop 7 (x # xs)))"
    by (simp only: take_map drop_map)
  finally show ?case using 2 by (simp del: take_Suc_Cons drop_Suc_Cons)
qed

lemma map_length_chunk7: "map length (chunk7 xs) = map length (chunk7 (replicate (length xs) ()))"
proof -
  have "replicate (length xs) () = map (\<lambda>_. ()) xs"
    by (simp add: map_replicate_const)
  then show ?thesis by (simp add: chunk7_map comp_def)
qed

lemma length_chunk7: "length (chunk7 xs) = (length xs + 6) div 7"
proof (induction xs rule: chunk7.induct)
  case 1
  then show ?case by simp
next
  case (2 x xs)
  have "length (chunk7 (x # xs)) = Suc (length (chunk7 (drop 7 (x # xs))))"
    by (simp del: take_Suc_Cons drop_Suc_Cons)
  then show ?case using 2 by (simp del: take_Suc_Cons drop_Suc_Cons) arith
qed

lemma chunk7_nth: "k < length (chunk7 xs) \<Longrightarrow> chunk7 xs ! k = take 7 (drop (7 * k) xs)"
proof (induction xs arbitrary: k rule: chunk7.induct)
  case 1
  then show ?case by simp
next
  case (2 x xs)
  have c: "chunk7 (x # xs) = take 7 (x # xs) # chunk7 (drop 7 (x # xs))"
    by (simp del: take_Suc_Cons drop_Suc_Cons)
  show ?case
  proof (cases k)
    case 0
    then show ?thesis by (simp add: c del: take_Suc_Cons drop_Suc_Cons chunk7.simps)
  next
    case (Suc j)
    then have "j < length (chunk7 (drop 7 (x # xs)))" using "2.prems" c by simp
    from "2.IH" [OF this] have "chunk7 (drop 7 (x # xs)) ! j = take 7 (drop (7 * j) (drop 7 (x # xs)))" .
    moreover have "drop (7 * j) (drop 7 (x # xs)) = drop (7 * j + 7) (x # xs)"
      by (rule drop_drop)
    moreover have "7 * j + 7 = 7 * k" using Suc by simp
    ultimately show ?thesis
      using Suc by (simp only: c nth_Cons_Suc)
  qed
qed

lemma chunk7_full:
  assumes "Suc k < length (chunk7 xs)"
  shows "length (chunk7 xs ! k) = 7"
proof -
  have "Suc k < (length xs + 6) div 7" using assms by (simp add: length_chunk7)
  then have "7 * k + 7 \<le> length xs" by arith
  moreover have "chunk7 xs ! k = take 7 (drop (7 * k) xs)"
    using assms by (simp add: chunk7_nth)
  ultimately show ?thesis by simp
qed

lemma groupedWeeks_eq: "groupLoop ds 0 [] = chunk7 ds"
  by (simp add: groupLoop_eq)

lemma findIndex_ge: "- 1 \<le> findIndex p xs"
  by (induction xs) (auto simp: Let_def)

lemma findIndex_neg_iff: "findIndex p xs = - 1 \<longleftrightarrow> (\<forall>x\<in>set xs. \<not> p x)"
proof (induction xs)
  case Nil
  then show ?case by simp
next
  case (Cons x xs)
  have "- 1 \<le> findIndex p xs" by (rule findIndex_ge)
  then show ?case using Cons by (auto simp: Let_def)
qed

lemma findIndex_first:
  assumes "\<exists>x\<in>set xs. p x"
  shows "0 \<le> findIndex p xs \<and> nat (findIndex p xs) < length xs \<and> p (xs ! nat (findIndex p xs)) \<and>
         (\<forall>i < nat (findIndex p xs). \<not> p (xs ! i))"
  using assms
proof (induction xs)
  case Nil
  then show ?case by simp
next
  case (Cons x xs)
  show ?case
  proof (cases "p x")
    case True
    then show ?thesis by simp
  next
    case False
    with Cons.prems have ex: "\<exists>x\<in>set xs. p x" by simp
    note IH = Cons.IH [OF ex]
    let ?r = "findIndex p xs"
    have r: "0 \<le> ?r" using IH by simp
    then have fi: "findIndex p (x # xs) = ?r + 1" using False by (simp add: Let_def)
    have n: "nat (?r + 1) = Suc (nat ?r)" using r by simp
    have "\<not> p ((x # xs) ! i)" if "i < Suc (nat ?r)" for i
      using that False IH by (cases i) auto
    then show ?thesis
      unfolding fi n using IH r by simp
  qed
qed

lemma findIndex_unique:
  assumes "k < length xs" and "p (xs ! k)" and "\<forall>i<k. \<not> p (xs ! i)"
  shows "findIndex p xs = int k"
proof -
  have ex: "\<exists>x\<in>set xs. p x" using assms(1,2) nth_mem by blast
  note f = findIndex_first [OF ex]
  let ?j = "nat (findIndex p xs)"
  have "\<not> ?j < k" using assms(3) f by blast
  moreover have "\<not> k < ?j" using assms(2) f by blast
  ultimately have "?j = k" by simp
  moreover have "int ?j = findIndex p xs" using f by simp
  ultimately show ?thesis by simp
qed

lemma findIndex_rev_last:
  assumes "\<exists>x\<in>set xs. p x"
  shows "0 \<le> findIndex p (rev xs) \<and> nat (findIndex p (rev xs)) < length xs \<and>
         p (xs ! (length xs - 1 - nat (findIndex p (rev xs)))) \<and>
         (\<forall>i. length xs - 1 - nat (findIndex p (rev xs)) < i \<and> i < length xs \<longrightarrow> \<not> p (xs ! i))"
proof -
  have ex: "\<exists>x\<in>set (rev xs). p x" using assms by simp
  note f = findIndex_first [OF ex]
  let ?j = "nat (findIndex p (rev xs))"
  have j: "?j < length xs" using f by simp
  have a: "p (xs ! (length xs - 1 - ?j))"
    using f j by (simp add: rev_nth)
  have b: "\<not> p (xs ! i)" if "length xs - 1 - ?j < i" "i < length xs" for i
  proof -
    let ?i' = "length xs - 1 - i"
    have "?i' < ?j" using that j by simp
    then have "\<not> p (rev xs ! ?i')" using f by blast
    moreover have "rev xs ! ?i' = xs ! i"
      using that by (simp add: rev_nth)
    ultimately show ?thesis by simp
  qed
  show ?thesis using f a b by simp
qed

text \<open>
  Searching \<open>groupedWeeks\<close> for the week that was put first into \<open>boundedWeeks\<close> finds the
  first available week itself, also when the search compares contents: a week with equal
  contents would have an available day too, so it cannot come earlier.
\<close>

lemma currentWeekIndex_is_first:
  assumes "\<exists>w\<in>set gw. hasAvailableDays w"
  shows "findIndex (\<lambda>week. week = gw ! nat (findIndex hasAvailableDays gw)) gw =
         findIndex hasAvailableDays gw"
proof -
  note F = findIndex_first [OF assms]
  let ?f = "nat (findIndex hasAvailableDays gw)"
  have "findIndex (\<lambda>week. week = gw ! ?f) gw = int ?f"
  proof (rule findIndex_unique)
    show "?f < length gw" using F by simp
    show "gw ! ?f = gw ! ?f" ..
    show "\<forall>i<?f. \<not> gw ! i = gw ! ?f" using F by metis
  qed
  then show ?thesis using F by simp
qed

lemma countAvailable_le: "countAvailable w \<le> length w"
  by (simp add: countAvailable_def)

lemma boundLoop_char:
  assumes "i \<le> l" and "l < length gw" and "c < 7"
  shows "\<exists>m. 0 < m \<and> i + m \<le> Suc l \<and>
           boundLoop gw i l (acc, c) = (acc @ take m (drop i gw), c + totalAvailable (take m (drop i gw))) \<and>
           c + totalAvailable (take (m - 1) (drop i gw)) < 7 \<and>
           (7 \<le> c + totalAvailable (take m (drop i gw)) \<or> i + m = Suc l)"
  using assms
proof (induction "l - i" arbitrary: i acc c)
  case 0
  then have il: "i = l" by simp
  have d: "drop i gw = gw ! i # drop (Suc i) gw"
    using 0 il by (simp add: Cons_nth_drop_Suc)
  have "boundLoop gw l l (acc, c) = (acc @ [gw ! l], c + countAvailable (gw ! l))"
    by (simp add: boundLoop.simps [of gw l] boundLoop.simps [of gw "Suc l"] Let_def countAvailable_def)
  then have "boundLoop gw i l (acc, c) = (acc @ [gw ! i], c + countAvailable (gw ! i))"
    using il by simp
  then show ?case
    using 0 il d by (intro exI [of _ 1]) (simp add: totalAvailable_def)
next
  case (Suc k)
  then have il: "i < l" by simp
  have d: "drop i gw = gw ! i # drop (Suc i) gw"
    using Suc by (simp add: Cons_nth_drop_Suc)
  let ?c' = "c + countAvailable (gw ! i)"
  show ?case
  proof (cases "7 \<le> ?c'")
    case True
    then have "boundLoop gw i l (acc, c) = (acc @ [gw ! i], ?c')"
      using il by (simp add: boundLoop.simps [of gw i] Let_def countAvailable_def)
    then show ?thesis
      using Suc.prems True il d by (intro exI [of _ 1]) (simp add: totalAvailable_def)
  next
    case False
    then have c': "?c' < 7" by simp
    have step: "boundLoop gw i l (acc, c) = boundLoop gw (Suc i) l (acc @ [gw ! i], ?c')"
      using il False by (simp add: boundLoop.simps [of gw i] Let_def countAvailable_def)
    have "k = l - Suc i" using Suc.hyps(2) by simp
    from Suc.hyps(1) [OF this _ Suc.prems(2) c', of "acc @ [gw ! i]"] il
    obtain m where m: "0 < m" "Suc i + m \<le> Suc l"
      "boundLoop gw (Suc i) l (acc @ [gw ! i], ?c') =
         ((acc @ [gw ! i]) @ take m (drop (Suc i) gw), ?c' + totalAvailable (take m (drop (Suc i) gw)))"
      "?c' + totalAvailable (take (m - 1) (drop (Suc i) gw)) < 7"
      "7 \<le> ?c' + totalAvailable (take m (drop (Suc i) gw)) \<or> Suc i + m = Suc l"
      by auto
    have t1: "take (Suc m) (drop i gw) = gw ! i # take m (drop (Suc i) gw)"
      by (simp add: d)
    have t2: "take (Suc m - 1) (drop i gw) = gw ! i # take (m - 1) (drop (Suc i) gw)"
      using m(1) by (cases m) (simp_all add: d)
    show ?thesis
      apply (rule exI [of _ "Suc m"])
      unfolding t1 t2 step m(3)
      using m by (auto simp: totalAvailable_def)
  qed
qed


lemma chunk7_count_le:
  assumes "w \<in> set (chunk7 ds)"
  shows "countAvailable w \<le> 7"
  using chunk7_lengths [OF assms] countAvailable_le [of w] by simp

lemma totalAvailable_snoc:
  "0 < m \<Longrightarrow> m \<le> length xs \<Longrightarrow>
   totalAvailable (take m xs) = totalAvailable (take (m - 1) xs) + countAvailable (xs ! (m - 1))"
  by (cases m) (simp_all add: totalAvailable_def take_Suc_conv_app_nth)

text \<open>What the trimming branch of \<open>weeks\<close> computes.\<close>

lemma weeks_trim:
  assumes n: "0 < n" and ex: "\<exists>w\<in>set (chunk7 ds). hasAvailableDays w"
  shows "\<exists>f l m. f \<le> l \<and> l < length (chunk7 ds) \<and>
           int f = findIndex hasAvailableDays (chunk7 ds) \<and>
           hasAvailableDays (chunk7 ds ! f) \<and> (\<forall>i<f. \<not> hasAvailableDays (chunk7 ds ! i)) \<and>
           hasAvailableDays (chunk7 ds ! l) \<and>
           (\<forall>i. l < i \<and> i < length (chunk7 ds) \<longrightarrow> \<not> hasAvailableDays (chunk7 ds ! i)) \<and>
           0 < m \<and> f + m \<le> Suc l \<and>
           boundLoop (chunk7 ds) f l ([], 0) =
             (take m (drop f (chunk7 ds)), totalAvailable (take m (drop f (chunk7 ds)))) \<and>
           totalAvailable (take (m - 1) (drop f (chunk7 ds))) < 7 \<and>
           (7 \<le> totalAvailable (take m (drop f (chunk7 ds))) \<or> f + m = Suc l) \<and>
           totalAvailable (take m (drop f (chunk7 ds))) < 14 \<and>
           weeks ds n True =
             (if m < 5 then take 5 (drop f (chunk7 ds)) else take m (drop f (chunk7 ds)))"
proof -
  let ?gw = "chunk7 ds"
  let ?fi = "findIndex hasAvailableDays ?gw"
  let ?li = "findIndex hasAvailableDays (rev ?gw)"
  let ?f = "nat ?fi"
  let ?l = "length ?gw - 1 - nat ?li"
  note F = findIndex_first [OF ex]
  note L = findIndex_rev_last [OF ex]
  have fl: "?f \<le> ?l"
  proof (rule ccontr)
    assume "\<not> ?f \<le> ?l"
    then have "?l < ?f" by simp
    then show False using F L by blast
  qed
  have l: "?l < length ?gw" using F by (cases "chunk7 ds") simp_all
  from boundLoop_char [OF fl l, of 0 "[]"]
  obtain m where m: "0 < m" "?f + m \<le> Suc ?l"
    "boundLoop ?gw ?f ?l ([], 0) = (take m (drop ?f ?gw), totalAvailable (take m (drop ?f ?gw)))"
    "totalAvailable (take (m - 1) (drop ?f ?gw)) < 7"
    "7 \<le> totalAvailable (take m (drop ?f ?gw)) \<or> ?f + m = Suc ?l"
    by auto
  have mlen: "m \<le> length (drop ?f ?gw)" using m(2) l by simp
  have "drop ?f ?gw ! (m - 1) \<in> set ?gw"
    using m(1,2) l by (simp add: nth_mem)
  then have "countAvailable (drop ?f ?gw ! (m - 1)) \<le> 7"
    by (rule chunk7_count_le)
  then have lt14: "totalAvailable (take m (drop ?f ?gw)) < 14"
    using totalAvailable_snoc [OF m(1) mlen] m(4) by simp
  have adj: "int (length ?gw) - 1 - ?li = int ?l"
    using L by simp
  have li: "?li \<noteq> - 1" "?fi \<noteq> - 1" using F L by simp_all
  have hd: "take m (drop ?f ?gw) = ?gw ! ?f # take (m - 1) (drop (Suc ?f) ?gw)"
    using m(1) F by (cases m) (simp_all add: Cons_nth_drop_Suc [symmetric])
  have cur: "findIndex (\<lambda>week. week = ?gw ! ?f) ?gw = int ?f"
  proof (rule findIndex_unique)
    show "?f < length ?gw" using F by simp
    show "?gw ! ?f = ?gw ! ?f" ..
    show "\<forall>i<?f. \<not> ?gw ! i = ?gw ! ?f" using F by metis
  qed
  have lenbw: "length (take m (drop ?f ?gw)) = m" using mlen by simp
  have w: "weeks ds n True =
             (if m < 5 then take 5 (drop ?f ?gw) else take m (drop ?f ?gw))"
  proof -
    have 1: "(if ?li = - 1 then - 1 else int (length ?gw) - 1 - ?li) = int ?l"
      using li adj by simp
    have 2: "(if ?fi \<noteq> - 1 \<and> int ?l \<noteq> - 1
              then boundLoop ?gw (nat ?fi) (nat (int ?l)) ([], 0) else ([], 0)) =
             (take m (drop ?f ?gw), totalAvailable (take m (drop ?f ?gw)))"
      using li m(3) by simp
    have 3: "(case take m (drop ?f ?gw) of [] \<Rightarrow> - 1
              | w # _ \<Rightarrow> findIndex (\<lambda>week. week = w) ?gw) = int ?f"
      by (simp add: hd cur)
    have 4: "(n = 0 \<or> \<not> True) = False" using n by simp
    show ?thesis
      unfolding weeks_def groupedWeeks_eq Let_def 1 2 fst_conv snd_conv 3 4 lenbw slice_def
      using lt14 by simp
  qed
  show ?thesis
    apply (rule exI [of _ ?f], rule exI [of _ ?l], rule exI [of _ m])
    using fl l F L m lt14 w by simp
qed

lemma weeks_no_available:
  assumes "\<not> (\<exists>w\<in>set (chunk7 ds). hasAvailableDays w)"
  shows "weeks ds n True = (if n = 0 then chunk7 ds else [])"
proof -
  have "findIndex hasAvailableDays (chunk7 ds) = - 1"
    using assms by (simp add: findIndex_neg_iff)
  then show ?thesis
    by (simp add: weeks_def groupedWeeks_eq Let_def)
qed

lemma weeks_untrimmed: "n = 0 \<or> \<not> b \<Longrightarrow> weeks ds n b = chunk7 ds"
  by (auto simp: weeks_def groupedWeeks_eq Let_def)

subsection \<open>Concrete months\<close>

lemma upt_1_29: "[1..<Suc 28] = [1,2,3,4,5,6,7,8,9,10,11,12,13,14,15,16,17,18,19,20,21,22,23,24,25,26,27,28]"
  by code_simp

lemma upt_1_31: "[1..<Suc 30] = [1,2,3,4,5,6,7,8,9,10,11,12,13,14,15,16,17,18,19,20,21,22,23,24,25,26,27,28,29,30]"
  by code_simp

lemma upt_1_32: "[1..<Suc 31] = [1,2,3,4,5,6,7,8,9,10,11,12,13,14,15,16,17,18,19,20,21,22,23,24,25,26,27,28,29,30,31]"
  by code_simp

lemma dim_june24: "daysInMonth june24 = 30"
  by (simp add: daysInMonth_def june24_def monthLength_def)

lemma dim_july24: "daysInMonth july24 = 31"
  by (simp add: daysInMonth_def july24_def monthLength_def)

lemma add_month_june24: "add_month june24 1 = july24"
  by (simp add: add_month_def june24_def july24_def monthLength_def)

lemma pad_june24: "paddingBeforeFirst june24 0 = 6"
  by (simp add: paddingBeforeFirst_def eval_weekday june24_def)

lemma monthDates_june24: "monthDates june24 = map (set_date june24) [1,2,3,4,5,6,7,8,9,10,11,12,13,14,15,16,17,18,19,20,21,22,23,24,25,26,27,28,29,30]"
  unfolding monthDates_def dim_june24 upt_1_31 ..

lemma monthDates_july24: "monthDates july24 = map (set_date july24) [1,2,3,4,5,6,7,8,9,10,11,12,13,14,15,16,17,18,19,20,21,22,23,24,25,26,27,28,29,30,31]"
  unfolding monthDates_def dim_july24 upt_1_32 ..

lemma ymd_june24: "yyyymmdd (set_date june24 k) = ''2024-06-'' @ padStart 2 (CHR ''0'') (digits k)"
  by (simp add: yyyymmdd_def june24_def set_date_def padStart_def digits.simps [of "numeral k" for k])

lemma ymd_july24: "yyyymmdd (set_date july24 k) = ''2024-07-'' @ padStart 2 (CHR ''0'') (digits k)"
  by (simp add: yyyymmdd_def july24_def set_date_def padStart_def digits.simps [of "numeral k" for k])

lemma set_date_fields [simp]:
  "year (set_date d k) = year d" "month (set_date d k) = month d" "date (set_date d k) = k"
  "millis (set_date d k) = millis d"
  by (simp_all add: set_date_def)

lemma june24_fields: "year june24 = 2024" "month june24 = 5" "date june24 = 1"
  by (simp_all add: june24_def)

lemma july24_fields: "year july24 = 2024" "month july24 = 6" "date july24 = 1"
  by (simp_all add: july24_def)

lemmas eval_strings = padStart_def digits.simps [of "numeral k" for k] digits.simps [of "Suc 0"]

lemma helper_month:
  "getAvailableDatesInMonth now bd (Some m) inc =
     filter (\<lambda>s. inc = [] \<or> s \<in> set inc)
       (map yyyymmdd (filter (\<lambda>d. \<not> date_less d (if date_less m bd then bd else m)) (monthDates bd)))"
  by (simp add: getAvailableDatesInMonth_def monthDates_def Let_def)

lemma lengths_36: "map length (chunk7 (replicate 36 ())) = [7, 7, 7, 7, 7, 1]"
  by code_simp

lemma useCalendarDays_total:
  assumes "0 \<le> weekStart p" and "weekStart p \<le> 6"
  shows "\<exists>r. useCalendarDays g p = Inr r"
  using useCalendarDays_eq [OF assms, of g] by (simp add: Let_def)

lemma single_month_weeks:
  assumes "0 \<le> weekStart p" and "weekStart p \<le> 6" and "showOneMonth p = Some True"
    and "useCalendarDays g p = Inr r"
  shows "cd_weeks r = chunk7 (cd_daysToRenderForTheMonth r) \<and>
         length (cd_daysToRenderForTheMonth r) =
           paddingBeforeFirst (browsingDate p) (weekStart p) + daysInMonth (browsingDate p)"
  using useCalendarDays_eq [OF assms(1,2), of g] assms(3,4)
  by (auto simp: Let_def shouldRenderNextMonth_def allDays_def weeks_untrimmed monthDates_def)

lemma weeks_june_single:
  assumes "useCalendarDays g (props_june inc exc (Some True)) = Inr r"
  shows "cd_weeks r = chunk7 (cd_daysToRenderForTheMonth r) \<and> length (cd_daysToRenderForTheMonth r) = 36"
  using single_month_weeks [OF _ _ _ assms]
  by (simp add: props_june_def pad_june24 dim_june24)

lemma inMonth_cutover: "getAvailableDatesInMonth now june24 (Some june24) incl_cutover = [''2024-06-30'']"
  unfolding helper_month
  by (simp add: monthDates_june24 date_less_def june24_fields ymd_june24 eval_strings incl_cutover_def
        split del: if_split)

lemma inNext_cutover: "getAvailableDatesInMonth now july24 (Some june24) incl_cutover =
   [''2024-07-01'', ''2024-07-02'', ''2024-07-03'', ''2024-07-04'', ''2024-07-05'', ''2024-07-06'']"
  unfolding helper_month
  by (simp add: monthDates_july24 date_less_def june24_fields july24_fields ymd_july24 eval_strings
        incl_cutover_def split del: if_split)

lemma forMonth_cutover: "map (monthCell [''2024-06-30''] []) (monthDates june24) =
   map (\<lambda>k. \<lparr>day = Some (set_date june24 k), disabled = (k \<noteq> 30)\<rparr>)
     [1,2,3,4,5,6,7,8,9,10,11,12,13,14,15,16,17,18,19,20,21,22,23,24,25,26,27,28,29,30]"
  unfolding monthDates_june24
  by (simp add: monthCell_def ymd_june24 eval_strings split del: if_split)

lemma forNext_cutover: "map (nextCell incl_cutover) (monthDates july24) =
   map (\<lambda>k. \<lparr>day = Some (set_date july24 k), disabled = (6 < k)\<rparr>)
     [1,2,3,4,5,6,7,8,9,10,11,12,13,14,15,16,17,18,19,20,21,22,23,24,25,26,27,28,29,30,31]"
  unfolding monthDates_july24
  by (simp add: nextCell_def ymd_july24 eval_strings incl_cutover_def split del: if_split)

lemma filter_next_cells:
  "filter (\<lambda>d. day d \<noteq> None) (replicate n nullCell @ map (nextCell a) ds) = map (nextCell a) ds"
  by (induction ds) (simp_all add: filter_empty_conv)

lemma available_cutover:
  "length (availableDaysForTheMonth (replicate 6 nullCell @ map (monthCell [''2024-06-30''] []) (monthDates june24))) = 1"
  unfolding forMonth_cutover availableDaysForTheMonth_def
  by (simp split del: if_split)

lemma result_cutover:
  assumes "useCalendarDays (getAvailableDatesInMonth now) (props_june (Some incl_cutover) None None) = Inr r"
  shows "cd_shouldRenderNextMonth r \<and> cd_weeks r = weeks cells_cutover (Suc 0) True"
proof -
  have ws: "0 \<le> weekStart (props_june (Some incl_cutover) None None)"
           "weekStart (props_june (Some incl_cutover) None None) \<le> 6"
    by (simp_all add: props_june_def)
  have sr: "shouldRenderNextMonth None [''2024-06-30'']
              (availableDaysForTheMonth (replicate 6 nullCell @ map (monthCell [''2024-06-30''] []) (monthDates june24)))
              [''2024-07-01'', ''2024-07-02'', ''2024-07-03'', ''2024-07-04'', ''2024-07-05'', ''2024-07-06'']"
    by (simp add: shouldRenderNextMonth_def available_cutover)
  have eq: "useCalendarDays (getAvailableDatesInMonth now) (props_june (Some incl_cutover) None None) =
     Inr \<lparr>cd_daysToRenderForTheMonth = replicate 6 nullCell @ map (monthCell [''2024-06-30''] []) (monthDates june24),
          cd_daysToRenderForNextMonth = replicate 6 nullCell @ map (nextCell incl_cutover) (monthDates july24),
          cd_shouldRenderNextMonth = True,
          cd_includedDatesInMonth = [''2024-06-30''],
          cd_includedDatesNextMonth = [''2024-07-01'', ''2024-07-02'', ''2024-07-03'', ''2024-07-04'', ''2024-07-05'', ''2024-07-06''],
          cd_weeks = weeks cells_cutover (Suc 0) True\<rparr>"
    unfolding useCalendarDays_eq [OF ws] Let_def
    unfolding props_june_def UseCalendarDaysProps.simps included_of_def excluded_of_def option.case
      add_month_june24 pad_june24 inMonth_cutover inNext_cutover
    using sr
    by (simp add: allDays_def filter_next_cells forMonth_cutover forNext_cutover cells_cutover_def
          split del: if_split)
  from assms show ?thesis unfolding eq by auto
qed

lemma weeks_cutover:
  "map length (weeks cells_cutover (Suc 0) True) = [7, 7, 7, 7, 4]"
  "map countAvailable (weeks cells_cutover (Suc 0) True) = [7, 0, 0, 0, 0]"
  by code_simp+

lemma available_week_cutover: "\<exists>w\<in>set (groupLoop cells_cutover 0 []). hasAvailableDays w"
  unfolding groupedWeeks_eq by code_simp





lemma none_enabled:
  assumes "set a \<subseteq> set e"
  shows "filter (\<lambda>c. \<not> disabled c) (replicate n nullCell @ map (monthCell a e) ds) = []"
  using assms by (auto simp: filter_empty_conv)

lemma inMonth_blocked: "getAvailableDatesInMonth now june24 (Some june24) incl_blocked = [''2024-06-05'']"
  unfolding helper_month
  by (simp add: monthDates_june24 date_less_def june24_fields ymd_june24 eval_strings incl_blocked_def
        split del: if_split)

lemma inNext_blocked: "getAvailableDatesInMonth now july24 (Some june24) incl_blocked = [''2024-07-01'']"
  unfolding helper_month
  by (simp add: monthDates_july24 date_less_def june24_fields july24_fields ymd_july24 eval_strings
        incl_blocked_def split del: if_split)





subsection \<open>The combined day sequence of a continuation\<close>

lemma add_month_fields:
  "year (add_month d n) = (year d * 12 + int (month d) + n) div 12"
  "month (add_month d n) = nat ((year d * 12 + int (month d) + n) mod 12)"
  by (simp_all add: add_month_def Let_def)

lemma carry_div: "0 \<le> r \<Longrightarrow> r < 12 \<Longrightarrow> (y * 12 + r) div 12 = (y::int)"
  by simp

lemma carry_mod: "0 \<le> r \<Longrightarrow> r < 12 \<Longrightarrow> (y * 12 + r) mod 12 = (r::int)"
  by simp

lemma next_month_carry:
  assumes "month bd < 12"
  shows "(year bd * 12 + int (month bd) + 1) div 12 = (if month bd = 11 then year bd + 1 else year bd)"
    and "(year bd * 12 + int (month bd) + 1) mod 12 = (if month bd = 11 then 0 else int (month bd) + 1)"
proof -
  show "(year bd * 12 + int (month bd) + 1) div 12 = (if month bd = 11 then year bd + 1 else year bd)"
  proof (cases "month bd = 11")
    case True
    then show ?thesis by simp
  next
    case False
    then have "0 \<le> int (month bd) + 1" "int (month bd) + 1 < 12" using assms by simp_all
    from carry_div [OF this, of "year bd"] False show ?thesis by (simp add: add.assoc)
  qed
  show "(year bd * 12 + int (month bd) + 1) mod 12 = (if month bd = 11 then 0 else int (month bd) + 1)"
  proof (cases "month bd = 11")
    case True
    then show ?thesis by simp
  next
    case False
    then have "0 \<le> int (month bd) + 1" "int (month bd) + 1 < 12" using assms by simp_all
    from carry_mod [OF this, of "year bd"] False show ?thesis by (simp add: add.assoc)
  qed
qed

lemma next_month_later:
  assumes "month bd < 12"
  shows "year bd < year (add_month bd 1) \<or>
         (year bd = year (add_month bd 1) \<and> month bd < month (add_month bd 1))"
  unfolding add_month_fields next_month_carry [OF assms]
  by (cases "month bd = 11") (simp_all add: nat_add_distrib)

lemma next_month_differs:
  assumes "month bd < 12"
  shows "month (add_month bd 1) \<noteq> month bd"
  unfolding add_month_fields next_month_carry [OF assms]
  by (cases "month bd = 11") (simp_all add: nat_add_distrib)

lemma daysInMonth_pos: "0 < daysInMonth d"
  by (simp add: daysInMonth_def monthLength_def)

lemma length_monthDates [simp]: "length (monthDates d) = daysInMonth d"
  by (simp add: monthDates_def)

lemma nth_monthDates: "i < daysInMonth d \<Longrightarrow> monthDates d ! i = set_date d (Suc i)"
  by (simp add: monthDates_def nth_append del: upt_Suc)

lemma take_padded:
  assumes "0 < n"
  shows "take (Suc k) (replicate k None @ map f [1..<Suc n]) = replicate k None @ [f 1]"
proof -
  have "[1..<Suc n] = 1 # [Suc 1..<Suc n]"
    using assms by (simp add: upt_conv_Cons del: upt_Suc)
  then show ?thesis by simp
qed


lemma length_combinedDays:
  "length (combinedDays pad a e inc bd) = pad + daysInMonth bd + daysInMonth (add_month bd 1)"
  by (simp add: combinedDays_def)

lemma combinedDays_nth:
  "q < pad \<Longrightarrow> combinedDays pad a e inc bd ! q = nullCell"
  "pad \<le> q \<Longrightarrow> q < pad + daysInMonth bd \<Longrightarrow>
     combinedDays pad a e inc bd ! q = monthCell a e (set_date bd (Suc (q - pad)))"
  "pad + daysInMonth bd \<le> q \<Longrightarrow> q < pad + daysInMonth bd + daysInMonth (add_month bd 1) \<Longrightarrow>
     combinedDays pad a e inc bd ! q =
       nextCell inc (set_date (add_month bd 1) (Suc (q - (pad + daysInMonth bd))))"
  by (simp_all add: combinedDays_def nth_append nth_monthDates)

lemma combinedDays_cases:
  assumes "q < length (combinedDays pad a e inc bd)"
  obtains (pad) "q < pad" "combinedDays pad a e inc bd ! q = nullCell"
  | (cur) "pad \<le> q" "q < pad + daysInMonth bd"
      "combinedDays pad a e inc bd ! q = monthCell a e (set_date bd (Suc (q - pad)))"
  | (nxt) "pad + daysInMonth bd \<le> q"
      "combinedDays pad a e inc bd ! q =
         nextCell inc (set_date (add_month bd 1) (Suc (q - (pad + daysInMonth bd))))"
  using assms combinedDays_nth [where q = q and pad = pad and a = a and e = e and inc = inc and bd = bd]
  by (cases "q < pad"; cases "q < pad + daysInMonth bd") (simp_all add: length_combinedDays)

lemma transition_position:
  assumes "month bd < 12" and "q < length (combinedDays pad a e inc bd)"
  shows "isTransitionCell bd (combinedDays pad a e inc bd ! q) \<longleftrightarrow> q = pad + daysInMonth bd"
  using assms(2)
proof (cases rule: combinedDays_cases)
  case pad
  then show ?thesis by (simp add: isTransitionCell_def)
next
  case cur
  then show ?thesis using next_month_differs [OF assms(1)] by (simp add: isTransitionCell_def)
next
  case nxt
  have "Suc (q - (pad + daysInMonth bd)) = 1 \<longleftrightarrow> q = pad + daysInMonth bd"
    using nxt(1) by linarith
  then show ?thesis using nxt by (simp add: isTransitionCell_def)
qed

lemma combinedDays_ascending:
  assumes "month bd < 12" and "q < q'" and "q' < length (combinedDays pad a e inc bd)"
    and "day (combinedDays pad a e inc bd ! q) = Some d"
    and "day (combinedDays pad a e inc bd ! q') = Some d'"
  shows "date_less d d'"
proof -
  let ?B = "pad + daysInMonth bd"
  let ?nm = "add_month bd 1"
  have q: "q < length (combinedDays pad a e inc bd)" using assms(2,3) by simp
  have dq: "pad \<le> q \<and> (if q < ?B then d = set_date bd (Suc (q - pad))
                         else d = set_date ?nm (Suc (q - ?B)))"
    using q assms(4) by (cases rule: combinedDays_cases) simp_all
  have dq': "pad \<le> q' \<and> (if q' < ?B then d' = set_date bd (Suc (q' - pad))
                           else d' = set_date ?nm (Suc (q' - ?B)))"
    using assms(3,5) by (cases rule: combinedDays_cases) simp_all
  consider "q' < ?B" | "q < ?B" "?B \<le> q'" | "?B \<le> q" by linarith
  then show ?thesis
  proof cases
    case 1
    then have "d = set_date bd (Suc (q - pad))" "d' = set_date bd (Suc (q' - pad))"
      using dq dq' assms(2) by simp_all
    moreover have "q - pad < q' - pad" using assms(2) dq by linarith
    ultimately show ?thesis by (simp add: date_less_def)
  next
    case 2
    then have "d = set_date bd (Suc (q - pad))" "d' = set_date ?nm (Suc (q' - ?B))"
      using dq dq' by simp_all
    then show ?thesis using next_month_later [OF assms(1)] by (simp add: date_less_def) blast
  next
    case 3
    then have "d = set_date ?nm (Suc (q - ?B))" "d' = set_date ?nm (Suc (q' - ?B))"
      using dq dq' assms(2) by simp_all
    moreover have "q - ?B < q' - ?B" using assms(2) 3 by linarith
    ultimately show ?thesis by (simp add: date_less_def)
  qed
qed

lemma combinedDays_months:
  assumes "q < length (combinedDays pad a e inc bd)" and "day (combinedDays pad a e inc bd ! q) = Some d"
  shows "if q < pad + daysInMonth bd then year d = year bd \<and> month d = month bd
         else year d = year (add_month bd 1) \<and> month d = month (add_month bd 1)"
  using assms(1)
proof (cases rule: combinedDays_cases)
  case pad
  then show ?thesis using assms(2) by simp
next
  case cur
  then have "d = set_date bd (Suc (q - pad))" using assms(2) by simp
  then show ?thesis using cur by simp
next
  case nxt
  then have "d = set_date (add_month bd 1) (Suc (q - (pad + daysInMonth bd)))"
    using assms(2) by simp
  then show ?thesis using nxt by simp
qed


lemma chunk7_has_week: "7 * j < length xs \<Longrightarrow> j < length (chunk7 xs)"
  by (simp add: length_chunk7)

lemma chunk7_cell:
  assumes "j < length (chunk7 xs)" and "i < length (chunk7 xs ! j)"
  shows "chunk7 xs ! j ! i = xs ! (7 * j + i) \<and> 7 * j + i < length xs \<and> i < 7"
proof -
  have i: "i < length xs - 7 * j" "i < 7" using assms by (simp_all add: chunk7_nth)
  then have l: "7 * j + i < length xs" by linarith
  then have "drop (7 * j) xs ! i = xs ! (7 * j + i)" by (simp add: nth_drop)
  then show ?thesis using assms(1) i l by (simp add: chunk7_nth)
qed

lemma chunk7_cell_length:
  assumes "j < length (chunk7 xs)"
  shows "length (chunk7 xs ! j) = min 7 (length xs - 7 * j)"
  using assms by (simp add: chunk7_nth)

lemma transitionIndex_eq: "transitionIndex bd week = findIndex (isTransitionCell bd) week"
proof -
  have "(\<lambda>c. case day c of None \<Rightarrow> False
              | Some d \<Rightarrow> date d = 1 \<and> month d = month (add_month bd 1)) = isTransitionCell bd"
    by (rule ext) (simp add: isTransitionCell_def)
  then show ?thesis by (simp add: transitionIndex_def)
qed

lemma cutover_combined:
  fixes pad a e inc bd
  defines "ad \<equiv> combinedDays pad a e inc bd"
  defines "B \<equiv> pad + daysInMonth bd"
  assumes m12: "month bd < 12"
  shows "B div 7 < length (chunk7 ad)"
    and "transitionIndex bd (chunk7 ad ! (B div 7)) = int (B mod 7)"
    and "\<forall>j<length (chunk7 ad). j \<noteq> B div 7 \<longrightarrow> transitionIndex bd (chunk7 ad ! j) = - 1"
    and "\<forall>i<length (chunk7 ad ! (B div 7)). \<forall>d. day (chunk7 ad ! (B div 7) ! i) = Some d \<longrightarrow>
           (if i < B mod 7 then year d = year bd \<and> month d = month bd
            else year d = year (add_month bd 1) \<and> month d = month (add_month bd 1))"
    and "\<forall>i i' d d'. i < i' \<and> i' < length (chunk7 ad ! (B div 7)) \<and>
           day (chunk7 ad ! (B div 7) ! i) = Some d \<and> day (chunk7 ad ! (B div 7) ! i') = Some d' \<longrightarrow>
           date_less d d'"
    and "B mod 7 \<noteq> 0 \<longrightarrow>
           day (chunk7 ad ! (B div 7) ! (B mod 7 - 1)) = Some (set_date bd (daysInMonth bd))"
    and "B mod 7 < length (chunk7 ad ! (B div 7))"
    and "day (chunk7 ad ! (B div 7) ! (B mod 7)) = Some (set_date (add_month bd 1) 1)"
proof -
  let ?k = "B div 7" and ?t = "B mod 7"
  let ?gw = "chunk7 ad"
  have len: "length ad = B + daysInMonth (add_month bd 1)"
    by (simp add: ad_def B_def length_combinedDays)
  have Blt: "B < length ad" using len daysInMonth_pos [of "add_month bd 1"] by simp
  have kt: "7 * ?k + ?t = B" by simp
  have "7 * ?k < length ad" using Blt kt by linarith
  then show k: "?k < length ?gw" by (rule chunk7_has_week)
  have wl: "length (?gw ! ?k) = min 7 (length ad - 7 * ?k)"
    using k by (rule chunk7_cell_length)
  have t1: "?t < length ad - 7 * ?k" using Blt kt by linarith
  have t2: "?t < 7" by simp
  show t: "?t < length (?gw ! ?k)"
    unfolding wl using t1 t2 by simp
  have cell: "?gw ! ?k ! i = ad ! (7 * ?k + i) \<and> 7 * ?k + i < length ad \<and> i < 7"
    if "i < length (?gw ! ?k)" for i
    using chunk7_cell [OF k that] .
  have tp: "isTransitionCell bd (ad ! q) \<longleftrightarrow> q = B" if "q < length ad" for q
    using transition_position [OF m12, of q pad a e inc] that by (simp add: ad_def B_def)
  show "transitionIndex bd (?gw ! ?k) = int ?t"
    unfolding transitionIndex_eq
  proof (rule findIndex_unique [OF t])
    show "isTransitionCell bd (?gw ! ?k ! ?t)"
      using cell [OF t] tp kt by simp
    show "\<forall>i<?t. \<not> isTransitionCell bd (?gw ! ?k ! i)"
    proof (intro allI impI)
      fix i assume i: "i < ?t"
      then have il: "i < length (?gw ! ?k)" using t by simp
      have "7 * ?k + i \<noteq> B" using i kt by linarith
      then show "\<not> isTransitionCell bd (?gw ! ?k ! i)"
        using cell [OF il] tp by simp
    qed
  qed
  show "\<forall>j<length ?gw. j \<noteq> ?k \<longrightarrow> transitionIndex bd (?gw ! j) = - 1"
  proof (intro allI impI)
    fix j assume j: "j < length ?gw" and jk: "j \<noteq> ?k"
    have "\<not> isTransitionCell bd x" if "x \<in> set (?gw ! j)" for x
    proof -
      from that obtain i where i: "i < length (?gw ! j)" "x = ?gw ! j ! i"
        by (auto simp: in_set_conv_nth)
      note c = chunk7_cell [OF j i(1)]
      have "7 * j + i \<noteq> B"
      proof
        assume e: "7 * j + i = B"
        have "i < 7" using c by simp
        then have "(7 * j + i) div 7 = j" by simp
        then show False using jk unfolding e by simp
      qed
      then show ?thesis using c tp i(2) by simp
    qed
    then show "transitionIndex bd (?gw ! j) = - 1"
      unfolding transitionIndex_eq by (simp add: findIndex_neg_iff)
  qed
  show "\<forall>i<length (?gw ! ?k). \<forall>d. day (?gw ! ?k ! i) = Some d \<longrightarrow>
           (if i < ?t then year d = year bd \<and> month d = month bd
            else year d = year (add_month bd 1) \<and> month d = month (add_month bd 1))"
  proof (intro allI impI)
    fix i d assume i: "i < length (?gw ! ?k)" and d: "day (?gw ! ?k ! i) = Some d"
    note c = cell [OF i]
    have "7 * ?k + i < B \<longleftrightarrow> i < ?t" using kt by linarith
    then show "if i < ?t then year d = year bd \<and> month d = month bd
            else year d = year (add_month bd 1) \<and> month d = month (add_month bd 1)"
      using combinedDays_months [of "7 * ?k + i" pad a e inc bd d] c d
      by (simp add: ad_def B_def)
  qed
  show "\<forall>i i' d d'. i < i' \<and> i' < length (?gw ! ?k) \<and>
           day (?gw ! ?k ! i) = Some d \<and> day (?gw ! ?k ! i') = Some d' \<longrightarrow> date_less d d'"
  proof (intro allI impI)
    fix i i' d d'
    assume h: "i < i' \<and> i' < length (?gw ! ?k) \<and>
           day (?gw ! ?k ! i) = Some d \<and> day (?gw ! ?k ! i') = Some d'"
    then have i: "i < length (?gw ! ?k)" and i': "i' < length (?gw ! ?k)" by simp_all
    show "date_less d d'"
      using combinedDays_ascending [OF m12, of "7 * ?k + i" "7 * ?k + i'" pad a e inc d d']
        cell [OF i] cell [OF i'] h
      by (simp add: ad_def)
  qed
  show "?t \<noteq> 0 \<longrightarrow> day (?gw ! ?k ! (?t - 1)) = Some (set_date bd (daysInMonth bd))"
  proof
    assume t0: "?t \<noteq> 0"
    then have il: "?t - 1 < length (?gw ! ?k)" using t by simp
    have pos: "7 * ?k + (?t - 1) = B - 1" using kt t0 by linarith
    have "pad \<le> B - 1" "B - 1 < pad + daysInMonth bd" "Suc (B - 1 - pad) = daysInMonth bd"
      using daysInMonth_pos [of bd] by (simp_all add: B_def)
    then have "ad ! (B - 1) = monthCell a e (set_date bd (daysInMonth bd))"
      using combinedDays_nth(2) [of pad "B - 1" bd a e inc] by (simp add: ad_def)
    then show "day (?gw ! ?k ! (?t - 1)) = Some (set_date bd (daysInMonth bd))"
      using cell [OF il] pos by simp
  qed
  have "ad ! B = nextCell inc (set_date (add_month bd 1) 1)"
    using combinedDays_nth(3) [of pad bd B a e inc] Blt len by (simp add: ad_def B_def)
  then show "day (?gw ! ?k ! ?t) = Some (set_date (add_month bd 1) 1)"
    using cell [OF t] kt by simp
qed

lemma dim_feb26: "daysInMonth feb26 = 28"
  by (simp add: daysInMonth_def feb26_def monthLength_def isLeapYear_def)

lemma dim_march26: "daysInMonth march26 = 31"
  by (simp add: daysInMonth_def march26_def monthLength_def)

lemma add_month_feb26: "add_month feb26 1 = march26"
  by (simp add: add_month_def feb26_def march26_def monthLength_def)

lemma pad_feb26: "paddingBeforeFirst feb26 0 = 0"
  by (simp add: paddingBeforeFirst_def eval_weekday feb26_def)

lemma monthDates_feb26: "monthDates feb26 = map (set_date feb26) [1,2,3,4,5,6,7,8,9,10,11,12,13,14,15,16,17,18,19,20,21,22,23,24,25,26,27,28]"
  unfolding monthDates_def dim_feb26 upt_1_29 ..

lemma monthDates_march26: "monthDates march26 = map (set_date march26) [1,2,3,4,5,6,7,8,9,10,11,12,13,14,15,16,17,18,19,20,21,22,23,24,25,26,27,28,29,30,31]"
  unfolding monthDates_def dim_march26 upt_1_32 ..

lemma ymd_feb26: "yyyymmdd (set_date feb26 k) = ''2026-02-'' @ padStart 2 (CHR ''0'') (digits k)"
  by (simp add: yyyymmdd_def feb26_def set_date_def padStart_def digits.simps [of "numeral k" for k]
        digits.simps [of "Suc (Suc 0)"])

lemma ymd_march26: "yyyymmdd (set_date march26 k) = ''2026-03-'' @ padStart 2 (CHR ''0'') (digits k)"
  by (simp add: yyyymmdd_def march26_def set_date_def padStart_def digits.simps [of "numeral k" for k])

lemma feb26_fields: "year feb26 = 2026" "month feb26 = 1" "date feb26 = 1"
  by (simp_all add: feb26_def)

lemma march26_fields: "year march26 = 2026" "month march26 = 2" "date march26 = 1"
  by (simp_all add: march26_def)

lemma inMonth_feb: "getAvailableDatesInMonth now feb26 (Some feb26) incl_feb = [''2026-02-10'']"
  unfolding helper_month
  by (simp add: monthDates_feb26 date_less_def feb26_fields ymd_feb26 eval_strings incl_feb_def
        split del: if_split)

lemma inNext_feb: "getAvailableDatesInMonth now march26 (Some feb26) incl_feb = [''2026-03-03'']"
  unfolding helper_month
  by (simp add: monthDates_march26 date_less_def feb26_fields march26_fields ymd_march26 eval_strings
        incl_feb_def split del: if_split)

lemma forMonth_feb: "map (monthCell [''2026-02-10''] []) (monthDates feb26) =
   map (\<lambda>k. \<lparr>day = Some (set_date feb26 k), disabled = (k \<noteq> 10)\<rparr>)
     [1,2,3,4,5,6,7,8,9,10,11,12,13,14,15,16,17,18,19,20,21,22,23,24,25,26,27,28]"
  unfolding monthDates_feb26
  by (simp add: monthCell_def ymd_feb26 eval_strings split del: if_split)

lemma forNext_feb: "map (nextCell incl_feb) (monthDates march26) =
   map (\<lambda>k. \<lparr>day = Some (set_date march26 k), disabled = (k \<noteq> 3)\<rparr>)
     [1,2,3,4,5,6,7,8,9,10,11,12,13,14,15,16,17,18,19,20,21,22,23,24,25,26,27,28,29,30,31]"
  unfolding monthDates_march26
  by (simp add: nextCell_def ymd_march26 eval_strings incl_feb_def split del: if_split)

lemma available_feb:
  "length (availableDaysForTheMonth (replicate 0 nullCell @ map (monthCell [''2026-02-10''] []) (monthDates feb26))) = 1"
  unfolding forMonth_feb availableDaysForTheMonth_def
  by (simp split del: if_split)

lemma result_feb:
  assumes "useCalendarDays (getAvailableDatesInMonth now) props_feb = Inr r"
  shows "cd_shouldRenderNextMonth r \<and> cd_weeks r = weeks cells_feb (Suc 0) True"
proof -
  have ws: "0 \<le> weekStart props_feb" "weekStart props_feb \<le> 6"
    by (simp_all add: props_feb_def)
  have sr: "shouldRenderNextMonth None [''2026-02-10'']
              (availableDaysForTheMonth (replicate 0 nullCell @ map (monthCell [''2026-02-10''] []) (monthDates feb26)))
              [''2026-03-03'']"
    by (simp add: shouldRenderNextMonth_def available_feb del: replicate_0)
  have eq: "useCalendarDays (getAvailableDatesInMonth now) props_feb =
     Inr \<lparr>cd_daysToRenderForTheMonth = replicate 0 nullCell @ map (monthCell [''2026-02-10''] []) (monthDates feb26),
          cd_daysToRenderForNextMonth = replicate 0 nullCell @ map (nextCell incl_feb) (monthDates march26),
          cd_shouldRenderNextMonth = True,
          cd_includedDatesInMonth = [''2026-02-10''],
          cd_includedDatesNextMonth = [''2026-03-03''],
          cd_weeks = weeks cells_feb (Suc 0) True\<rparr>"
    unfolding useCalendarDays_eq [OF ws] Let_def
    unfolding props_feb_def UseCalendarDaysProps.simps included_of_def excluded_of_def option.case
      add_month_feb26 pad_feb26 inMonth_feb inNext_feb
    using sr
    by (simp add: allDays_def filter_next_cells forMonth_feb forNext_feb cells_feb_def
          split del: if_split)
  from assms show ?thesis unfolding eq by auto
qed

lemma weeks_feb:
  "map (transitionIndex feb26) (weeks cells_feb (Suc 0) True) = [- 1, - 1, - 1, 0, - 1]"
  "map (map_option month \<circ> day) (weeks cells_feb (Suc 0) True ! 3) = replicate 7 (Some 2)"
  by code_simp+

section \<open>The day sequence of a month\<close>

text \<open>
  Claim C4. For every browsing date and every week start from 0 to 6 the hook returns, and the
  day sequence of the month is \<open>(w - weekStart + 7) mod 7\<close> nulls, where \<open>w\<close> is the
  weekday of day 1 of the browsed month (whatever day of the month the browsing date itself
  is), followed by one entry per date of the month, from day 1 to day \<open>daysInMonth\<close>, in
  order. So the number of entries is the padding plus \<open>daysInMonth\<close>. With week start 0
  and a month whose first day is a Wednesday (weekday 3) the sequence starts with exactly
  three nulls followed by the first of the month.
\<close>

theorem computeMonthDays_entries:
  assumes "0 \<le> weekStart p" and "weekStart p \<le> 6"
  shows "\<exists>r. useCalendarDays g p = Inr r \<and>
           days (browsingDate p) (weekStart p) = Inr (map day (cd_daysToRenderForTheMonth r)) \<and>
           map day (cd_daysToRenderForTheMonth r) =
             replicate (nat ((dayjs_day ((browsingDate p)\<lparr>date := 1\<rparr>) - weekStart p + 7) mod 7)) None @
             map (\<lambda>k. Some ((browsingDate p)\<lparr>date := k\<rparr>)) [1..<Suc (daysInMonth (browsingDate p))] \<and>
           length (cd_daysToRenderForTheMonth r) =
             nat ((dayjs_day ((browsingDate p)\<lparr>date := 1\<rparr>) - weekStart p + 7) mod 7) +
             daysInMonth (browsingDate p) \<and>
           (weekStart p = 0 \<and> dayjs_day ((browsingDate p)\<lparr>date := 1\<rparr>) = 3 \<longrightarrow>
              take 4 (map day (cd_daysToRenderForTheMonth r)) =
                [None, None, None, Some ((browsingDate p)\<lparr>date := 1\<rparr>)])"
proof -
  let ?bd = "browsingDate p"
  let ?pad = "paddingBeforeFirst ?bd (weekStart p)"
  have w: "weekdayOfFirst ?bd = dayjs_day (?bd\<lparr>date := 1\<rparr>)"
    by (simp add: weekdayOfFirst_def set_date_def)
  obtain r where r: "useCalendarDays g p = Inr r"
    and cells: "cd_daysToRenderForTheMonth r =
       replicate ?pad nullCell @ map (monthCell (g ?bd (minDate p) (included_of p)) (excluded_of p)) (monthDates ?bd)"
    using useCalendarDays_eq [OF assms, of g] by (simp add: Let_def)
  have md: "map day (cd_daysToRenderForTheMonth r) = replicate ?pad None @ map Some (monthDates ?bd)"
    by (simp add: cells map_day_cells)
  have 1: "days ?bd (weekStart p) = Inr (map day (cd_daysToRenderForTheMonth r))"
    by (simp add: md days_eq [OF assms])
  have 2: "map day (cd_daysToRenderForTheMonth r) =
             replicate (nat ((dayjs_day (?bd\<lparr>date := 1\<rparr>) - weekStart p + 7) mod 7)) None @
             map (\<lambda>k. Some (?bd\<lparr>date := k\<rparr>)) [1..<Suc (daysInMonth ?bd)]"
    by (simp add: md paddingBeforeFirst_def w monthDates_def set_date_def comp_def del: upt_Suc)
  have 3: "length (cd_daysToRenderForTheMonth r) =
             nat ((dayjs_day (?bd\<lparr>date := 1\<rparr>) - weekStart p + 7) mod 7) + daysInMonth ?bd"
    by (simp add: cells paddingBeforeFirst_def w monthDates_def)
  have dim: "0 < daysInMonth ?bd"
    by (simp add: daysInMonth_def monthLength_def)
  have 4: "take 4 (map day (cd_daysToRenderForTheMonth r)) = [None, None, None, Some (?bd\<lparr>date := 1\<rparr>)]"
    if "weekStart p = 0 \<and> dayjs_day (?bd\<lparr>date := 1\<rparr>) = 3"
  proof -
    have "?pad = 3" using that by (simp add: paddingBeforeFirst_def w)
    moreover have "monthDates ?bd = set_date ?bd 1 # map (set_date ?bd) [Suc 1..<Suc (daysInMonth ?bd)]"
      using dim by (simp add: monthDates_def upt_conv_Cons del: upt_Suc)
    ultimately show ?thesis
      by (simp add: md eval_nat_numeral set_date_def)
  qed
  show ?thesis using r 1 2 3 4 by blast
qed

text \<open>
  Browsing from 16 May 2024, a Thursday: May 2024 starts on a Wednesday and has 31 days, so
  with the week starting on Sunday there are 3 nulls, then 31 dates. Browsing from 10
  February 2024, a Saturday: February 2024 starts on a Thursday and has 29 days, so with the
  week starting on Monday there are 3 nulls, then 29 dates.
\<close>

theorem computeMonthDays_entries_witness:
  "(\<exists>r. useCalendarDays (getAvailableDatesInMonth may24)
          \<lparr>browsingDate = may24, weekStart = 0, minDate = None, includedDates = None,
           excludedDates = None, showOneMonth = None\<rparr> = Inr r \<and>
       length (cd_daysToRenderForTheMonth r) = 34 \<and>
       take 4 (map day (cd_daysToRenderForTheMonth r)) =
         [None, None, None, Some \<lparr>year = 2024, month = 4, date = 1, millis = 0\<rparr>]) \<and>
   (\<exists>r. useCalendarDays (getAvailableDatesInMonth feb24)
          \<lparr>browsingDate = feb24, weekStart = 1, minDate = None, includedDates = None,
           excludedDates = None, showOneMonth = None\<rparr> = Inr r \<and>
       length (cd_daysToRenderForTheMonth r) = 32 \<and>
       take 4 (map day (cd_daysToRenderForTheMonth r)) =
         [None, None, None, Some \<lparr>year = 2024, month = 1, date = 1, millis = 0\<rparr>]) \<and>
   dayjs_day may24 = 4 \<and> dayjs_day feb24 = 6"
proof -
  have 1: "\<exists>r. useCalendarDays (getAvailableDatesInMonth may24)
          \<lparr>browsingDate = may24, weekStart = 0, minDate = None, includedDates = None,
           excludedDates = None, showOneMonth = None\<rparr> = Inr r \<and>
       length (cd_daysToRenderForTheMonth r) = 34 \<and>
       take 4 (map day (cd_daysToRenderForTheMonth r)) =
         [None, None, None, Some \<lparr>year = 2024, month = 4, date = 1, millis = 0\<rparr>]"
    using computeMonthDays_entries [of "\<lparr>browsingDate = may24, weekStart = 0, minDate = None,
           includedDates = None, excludedDates = None, showOneMonth = None\<rparr>"
           "getAvailableDatesInMonth may24"]
    by (simp add: eval_weekday may24_def) blast
  have 2: "\<exists>r. useCalendarDays (getAvailableDatesInMonth feb24)
          \<lparr>browsingDate = feb24, weekStart = 1, minDate = None, includedDates = None,
           excludedDates = None, showOneMonth = None\<rparr> = Inr r \<and>
       length (cd_daysToRenderForTheMonth r) = 32 \<and>
       take 4 (map day (cd_daysToRenderForTheMonth r)) =
         [None, None, None, Some \<lparr>year = 2024, month = 1, date = 1, millis = 0\<rparr>]"
  proof -
    let ?p = "\<lparr>browsingDate = feb24, weekStart = 1, minDate = None, includedDates = None,
           excludedDates = None, showOneMonth = None\<rparr>"
    have pad: "nat ((dayjs_day ((browsingDate ?p)\<lparr>date := 1\<rparr>) - weekStart ?p + 7) mod 7) = 3"
      and dim: "daysInMonth (browsingDate ?p) = 29"
      by (simp_all add: eval_weekday feb24_def)
    have ws: "0 \<le> weekStart ?p" "weekStart ?p \<le> 6" by simp_all
    from computeMonthDays_entries [OF ws, of "getAvailableDatesInMonth feb24"]
    obtain r where r: "useCalendarDays (getAvailableDatesInMonth feb24) ?p = Inr r"
      and md: "map day (cd_daysToRenderForTheMonth r) =
             replicate (nat ((dayjs_day ((browsingDate ?p)\<lparr>date := 1\<rparr>) - weekStart ?p + 7) mod 7)) None @
             map (\<lambda>k. Some ((browsingDate ?p)\<lparr>date := k\<rparr>)) [1..<Suc (daysInMonth (browsingDate ?p))]"
      and len: "length (cd_daysToRenderForTheMonth r) =
             nat ((dayjs_day ((browsingDate ?p)\<lparr>date := 1\<rparr>) - weekStart ?p + 7) mod 7) +
             daysInMonth (browsingDate ?p)"
      by blast
    have "take (Suc 3) (map day (cd_daysToRenderForTheMonth r)) =
            replicate 3 None @ [Some ((browsingDate ?p)\<lparr>date := 1\<rparr>)]"
      unfolding md pad dim by (rule take_padded) simp
    then have "take 4 (map day (cd_daysToRenderForTheMonth r)) =
         [None, None, None, Some \<lparr>year = 2024, month = 1, date = 1, millis = 0\<rparr>]"
      by (simp add: feb24_def eval_nat_numeral)
    moreover have "length (cd_daysToRenderForTheMonth r) = 32"
      unfolding len pad dim by simp
    ultimately show ?thesis using r by blast
  qed
  have 3: "dayjs_day may24 = 4" "dayjs_day feb24 = 6"
    by (simp_all add: eval_weekday may24_def feb24_def)
  show ?thesis using 1 2 3 by (intro conjI)
qed

section \<open>Continuing into the next month\<close>

text \<open>
  Claim C2, as the code has it. \<open>shouldRenderNextMonth\<close> is true exactly when single-month
  display is not forced (\<open>showOneMonth\<close> is not true), the availability list of the current
  month is not empty, fewer than 7 cells of the current month are enabled, and the
  availability list of the next month is not empty. The two lists are the results of the
  availability helper for the browsing date and for the browsing date plus one month, with
  \<open>minDate\<close> and \<open>includedDates\<close>; \<open>excludedDates\<close> takes no part in them, so that the
  current month has an entry in its availability list also when every such day is excluded.
  In particular the flag is false whenever \<open>showOneMonth\<close> is true.
\<close>

theorem shouldRenderNextMonth_iff:
  assumes "0 \<le> weekStart p" and "weekStart p \<le> 6"
  shows "\<exists>r. useCalendarDays g p = Inr r \<and>
           cd_includedDatesInMonth r = g (browsingDate p) (minDate p) (case includedDates p of None \<Rightarrow> [] | Some xs \<Rightarrow> xs) \<and>
           cd_includedDatesNextMonth r = g (add_month (browsingDate p) 1) (minDate p) (case includedDates p of None \<Rightarrow> [] | Some xs \<Rightarrow> xs) \<and>
           (cd_shouldRenderNextMonth r \<longleftrightarrow>
              showOneMonth p \<noteq> Some True \<and>
              0 < length (cd_includedDatesInMonth r) \<and>
              length (filter (\<lambda>c. \<not> disabled c) (cd_daysToRenderForTheMonth r)) < 7 \<and>
              0 < length (cd_includedDatesNextMonth r)) \<and>
           (showOneMonth p = Some True \<longrightarrow> \<not> cd_shouldRenderNextMonth r)"
  using useCalendarDays_eq [OF assms, of g]
  by (simp add: Let_def shouldRenderNextMonth_def availableDaysForTheMonth_def included_of_def)

text \<open>
  Browsing June 2024 with 5 June and 1 July included and 5 June excluded: no cell of June is
  enabled, so the current month has no available day, and yet the next month is rendered.
\<close>

theorem shouldRenderNextMonth_iff_counterexample:
  "cd_shouldRenderNextMonth (projr (useCalendarDays (getAvailableDatesInMonth june24)
      (props_june (Some incl_blocked) (Some [''2024-06-05'']) None))) \<and>
   filter (\<lambda>c. \<not> disabled c) (cd_daysToRenderForTheMonth (projr (useCalendarDays
      (getAvailableDatesInMonth june24) (props_june (Some incl_blocked) (Some [''2024-06-05'']) None)))) = []"
proof -
  let ?p = "props_june (Some incl_blocked) (Some [''2024-06-05'']) None"
  let ?cells = "replicate 6 nullCell @ map (monthCell [''2024-06-05''] [''2024-06-05'']) (monthDates june24)"
  have ws: "0 \<le> weekStart ?p" "weekStart ?p \<le> 6" by (simp_all add: props_june_def)
  have none: "filter (\<lambda>c. \<not> disabled c) ?cells = []"
    by (rule none_enabled) simp
  have "cd_daysToRenderForTheMonth (projr (useCalendarDays (getAvailableDatesInMonth june24) ?p)) = ?cells"
    and "cd_shouldRenderNextMonth (projr (useCalendarDays (getAvailableDatesInMonth june24) ?p)) =
           shouldRenderNextMonth None [''2024-06-05''] (availableDaysForTheMonth ?cells) [''2024-07-01'']"
    unfolding useCalendarDays_eq [OF ws] Let_def
    unfolding props_june_def UseCalendarDaysProps.simps included_of_def excluded_of_def option.case
      add_month_june24 pad_june24 inMonth_blocked inNext_blocked
    by simp_all
  then show ?thesis
    using none by (simp add: shouldRenderNextMonth_def availableDaysForTheMonth_def)
qed

text \<open>
  Browsing June 2024 with 30 June and 1 to 6 July included: the next month is rendered,
  unless \<open>showOneMonth\<close> is set.
\<close>

theorem shouldRenderNextMonth_iff_witness:
  "(\<exists>r. useCalendarDays (getAvailableDatesInMonth june24)
          (props_june (Some incl_cutover) None (Some True)) = Inr r \<and>
       \<not> cd_shouldRenderNextMonth r) \<and>
   cd_shouldRenderNextMonth (projr (useCalendarDays (getAvailableDatesInMonth june24)
          (props_june (Some incl_cutover) None None)))"
proof -
  have "\<exists>r. useCalendarDays (getAvailableDatesInMonth june24)
          (props_june (Some incl_cutover) None (Some True)) = Inr r \<and>
       \<not> cd_shouldRenderNextMonth r"
    using shouldRenderNextMonth_iff [of "props_june (Some incl_cutover) None (Some True)"
             "getAvailableDatesInMonth june24"]
    by (simp add: props_june_def) blast
  moreover obtain r where r: "useCalendarDays (getAvailableDatesInMonth june24)
      (props_june (Some incl_cutover) None None) = Inr r"
    using useCalendarDays_total [of "props_june (Some incl_cutover) None None" "getAvailableDatesInMonth june24"]
    by (auto simp: props_june_def)
  ultimately show ?thesis
    using result_cutover [OF r] by (simp add: r)
qed

section \<open>The cells of the next month\<close>

text \<open>
  Claim C10. The cells built for the next month are the padding nulls followed by one cell
  per date of the month after the browsed one, and such a cell is disabled exactly when its
  \<open>YYYY-MM-DD\<close> string is not a member of the raw \<open>includedDates\<close>. Neither
  \<open>excludedDates\<close> nor \<open>minDate\<close> nor the availability helper takes part: replacing them
  leaves the next-month cells unchanged. Hence a next-month day that is both included and
  excluded is enabled.
\<close>

theorem nextMonth_days_disabled:
  assumes "0 \<le> weekStart p" and "weekStart p \<le> 6"
  shows "\<exists>r. useCalendarDays g p = Inr r \<and>
     map day (cd_daysToRenderForNextMonth r) =
       replicate (nat ((weekdayOfFirst (browsingDate p) - weekStart p + 7) mod 7)) None @
       map (\<lambda>k. Some (set_date (add_month (browsingDate p) 1) k))
         [1..<Suc (daysInMonth (add_month (browsingDate p) 1))] \<and>
     (\<forall>c\<in>set (cd_daysToRenderForNextMonth r). \<forall>d. day c = Some d \<longrightarrow>
        (disabled c \<longleftrightarrow> yyyymmdd d \<notin> set (included_of p))) \<and>
     (\<forall>c\<in>set (cd_daysToRenderForNextMonth r). \<forall>d.
        day c = Some d \<and> yyyymmdd d \<in> set (included_of p) \<and> yyyymmdd d \<in> set (excluded_of p) \<longrightarrow>
        \<not> disabled c) \<and>
     (\<forall>g' e m s. map_sum id cd_daysToRenderForNextMonth
          (useCalendarDays g' (p\<lparr>excludedDates := e, minDate := m, showOneMonth := s\<rparr>)) =
        Inr (cd_daysToRenderForNextMonth r))"
proof -
  let ?bd = "browsingDate p"
  let ?cells = "replicate (paddingBeforeFirst ?bd (weekStart p)) nullCell @
                  map (nextCell (included_of p)) (monthDates (add_month ?bd 1))"
  obtain r where r: "useCalendarDays g p = Inr r" and cells: "cd_daysToRenderForNextMonth r = ?cells"
    using useCalendarDays_eq [OF assms, of g] by (simp add: Let_def)
  have 1: "map day (cd_daysToRenderForNextMonth r) =
       replicate (nat ((weekdayOfFirst ?bd - weekStart p + 7) mod 7)) None @
       map (\<lambda>k. Some (set_date (add_month ?bd 1) k)) [1..<Suc (daysInMonth (add_month ?bd 1))]"
    by (simp add: cells map_day_cells paddingBeforeFirst_def monthDates_def comp_def del: upt_Suc)
  have 2: "\<forall>c\<in>set (cd_daysToRenderForNextMonth r). \<forall>d. day c = Some d \<longrightarrow>
        (disabled c \<longleftrightarrow> yyyymmdd d \<notin> set (included_of p))"
    by (auto simp: cells)
  have 3: "map_sum id cd_daysToRenderForNextMonth
          (useCalendarDays g' (p\<lparr>excludedDates := e, minDate := m, showOneMonth := s\<rparr>)) =
        Inr (cd_daysToRenderForNextMonth r)" for g' e m s
  proof -
    let ?p' = "p\<lparr>excludedDates := e, minDate := m, showOneMonth := s\<rparr>"
    have "0 \<le> weekStart ?p'" "weekStart ?p' \<le> 6" using assms by simp_all
    from useCalendarDays_eq [OF this, of g'] show ?thesis
      by (simp add: Let_def cells included_of_def)
  qed
  show ?thesis using r 1 2 3 by blast
qed

text \<open>Browsing June 2024 with 3 July 2024 both included and excluded: that day is enabled, the next one is not.\<close>

theorem nextMonth_days_disabled_witness:
  "\<exists>r. useCalendarDays (getAvailableDatesInMonth june24)
          \<lparr>browsingDate = june24, weekStart = 0, minDate = None,
           includedDates = Some [''2024-07-03''], excludedDates = Some [''2024-07-03''],
           showOneMonth = None\<rparr> = Inr r \<and>
       cd_daysToRenderForNextMonth r ! 8 =
         \<lparr>day = Some \<lparr>year = 2024, month = 6, date = 3, millis = 0\<rparr>, disabled = False\<rparr> \<and>
       cd_daysToRenderForNextMonth r ! 9 =
         \<lparr>day = Some \<lparr>year = 2024, month = 6, date = 4, millis = 0\<rparr>, disabled = True\<rparr>"
proof -
  let ?p = "\<lparr>browsingDate = june24, weekStart = 0, minDate = None,
           includedDates = Some [''2024-07-03''], excludedDates = Some [''2024-07-03''],
           showOneMonth = None\<rparr>"
  have ws: "0 \<le> weekStart ?p" "weekStart ?p \<le> 6" by simp_all
  from nextMonth_days_disabled [OF ws, of "getAvailableDatesInMonth june24"]
  obtain r where r: "useCalendarDays (getAvailableDatesInMonth june24) ?p = Inr r"
    and md: "map day (cd_daysToRenderForNextMonth r) =
       replicate (nat ((weekdayOfFirst (browsingDate ?p) - weekStart ?p + 7) mod 7)) None @
       map (\<lambda>k. Some (set_date (add_month (browsingDate ?p) 1) k))
         [1..<Suc (daysInMonth (add_month (browsingDate ?p) 1))]"
    and dis: "\<forall>c\<in>set (cd_daysToRenderForNextMonth r). \<forall>d. day c = Some d \<longrightarrow>
        (disabled c \<longleftrightarrow> yyyymmdd d \<notin> set (included_of ?p))"
    by blast
  have md': "map day (cd_daysToRenderForNextMonth r) =
      replicate 6 None @ map (\<lambda>k. Some \<lparr>year = 2024, month = 6, date = k, millis = 0\<rparr>) [1..<32]"
    using md by (simp add: eval_weekday june24_def add_month_def del: upt_Suc)
  have len: "length (cd_daysToRenderForNextMonth r) = 37"
    using arg_cong [OF md', of length] by simp
  have d8: "day (cd_daysToRenderForNextMonth r ! 8) = Some \<lparr>year = 2024, month = 6, date = 3, millis = 0\<rparr>"
    using arg_cong [OF md', of "\<lambda>xs. xs ! 8"] len by (simp add: nth_append del: upt_Suc)
  have d9: "day (cd_daysToRenderForNextMonth r ! 9) = Some \<lparr>year = 2024, month = 6, date = 4, millis = 0\<rparr>"
    using arg_cong [OF md', of "\<lambda>xs. xs ! 9"] len by (simp add: nth_append del: upt_Suc)
  have m8: "cd_daysToRenderForNextMonth r ! 8 \<in> set (cd_daysToRenderForNextMonth r)"
    and m9: "cd_daysToRenderForNextMonth r ! 9 \<in> set (cd_daysToRenderForNextMonth r)"
    using len by simp_all
  have "\<not> disabled (cd_daysToRenderForNextMonth r ! 8)"
    using dis m8 d8 by (simp add: included_of_def yyyymmdd_def padStart_def digits.simps [of "numeral k" for k])
  moreover have "disabled (cd_daysToRenderForNextMonth r ! 9)"
    using dis m9 d9 by (simp add: included_of_def yyyymmdd_def padStart_def digits.simps [of "numeral k" for k])
  ultimately show ?thesis using r d8 d9 by auto
qed

section \<open>The month's cells are a function of their inputs\<close>




section \<open>Which day is selected\<close>

lemma digits_nonempty: "digits n \<noteq> []"
  by (subst digits.simps) simp

lemma last_digits: "last (digits n) \<in> set ''0123456789''"
proof -
  have "n mod 10 < 10" by simp
  then have a: "''0123456789'' ! (n mod 10) \<in> set ''0123456789''"
    by (intro nth_mem) simp
  show ?thesis
  proof (cases "n < 10")
    case True
    then have "''0123456789'' ! n \<in> set ''0123456789''" by (intro nth_mem) simp
    with True show ?thesis by (subst digits.simps) simp
  next
    case False
    with a show ?thesis by (subst digits.simps) simp
  qed
qed

lemma last_yyyymmdd: "last (yyyymmdd d) \<in> set ''0123456789''"
  using last_digits [of "date d"] digits_nonempty [of "date d"]
  by (simp add: yyyymmdd_def padStart_def)

lemma yyyymmdd_valid: "yyyymmdd d \<noteq> ''Invalid Date''"
proof
  assume "yyyymmdd d = ''Invalid Date''"
  then have "last (yyyymmdd d) = CHR ''e''" by simp
  with last_yyyymmdd [of d] show False by simp
qed

lemma key_matches:
  "yyyymmdd_of_key parse k = yyyymmdd d \<longleftrightarrow> (\<exists>d'. parse k = Some d' \<and> yyyymmdd d' = yyyymmdd d)"
  using yyyymmdd_valid [of d] by (auto simp: yyyymmdd_of_key_def split: option.splits)

lemma isActive_result:
  "isActive parse selected eventSlug store d =
     Inr (case selected of
            DateArray es \<Rightarrow> \<exists>e\<in>set es. yyyymmdd e = yyyymmdd d
          | _ \<Rightarrow>
             (\<exists>s. selected = SingleDate s \<and> yyyymmdd s = yyyymmdd d) \<or>
             (\<exists>slug st perDate k d'.
                 eventSlug = Some slug \<and> slug \<noteq> [] \<and> store = Some st \<and>
                 map_of st slug = Some perDate \<and> k \<in> fst ` set perDate \<and>
                 parse k = Some d' \<and> yyyymmdd d' = yyyymmdd d))"
  by (auto simp: isActive_def get_property_def Object_keys_def bind_result_def list_ex_iff key_matches
      split: Selected.splits option.splits)


lemma keyed_iff:
  "(\<exists>e\<in>set (keyedDates parse eventSlug store). yyyymmdd e = yyyymmdd d) \<longleftrightarrow>
     (\<exists>slug st perDate k d'.
         eventSlug = Some slug \<and> slug \<noteq> [] \<and> store = Some st \<and>
         map_of st slug = Some perDate \<and> k \<in> fst ` set perDate \<and>
         parse k = Some d' \<and> yyyymmdd d' = yyyymmdd d)"
proof (cases eventSlug)
  case None
  then show ?thesis by (simp add: keyedDates_def)
next
  case (Some slug)
  note slug = this
  show ?thesis
  proof (cases store)
    case None
    with slug show ?thesis by (simp add: keyedDates_def)
  next
    case (Some st)
    note st = this
    show ?thesis
    proof (cases "slug = []")
      case True
      with slug st show ?thesis by (simp add: keyedDates_def)
    next
      case False
      note ne = this
      show ?thesis
      proof (cases "map_of st slug")
        case None
        with slug st ne show ?thesis by (simp add: keyedDates_def)
      next
        case (Some perDate)
        have "set (List.map_filter (\<lambda>kv. parse (fst kv)) perDate) =
                {d'. \<exists>k\<in>fst ` set perDate. parse k = Some d'}"
          by (induction perDate) (auto simp: map_filter_simps split: option.splits)
        with slug st ne Some show ?thesis
          by (simp add: keyedDates_def) blast
      qed
    qed
  qed
qed

lemma selects_iff:
  "(\<exists>e\<in>set (selectedDates parse selected eventSlug store). yyyymmdd e = yyyymmdd d) \<longleftrightarrow>
     (case selected of
            DateArray es \<Rightarrow> \<exists>e\<in>set es. yyyymmdd e = yyyymmdd d
          | _ \<Rightarrow>
             (\<exists>s. selected = SingleDate s \<and> yyyymmdd s = yyyymmdd d) \<or>
             (\<exists>slug st perDate k d'.
                 eventSlug = Some slug \<and> slug \<noteq> [] \<and> store = Some st \<and>
                 map_of st slug = Some perDate \<and> k \<in> fst ` set perDate \<and>
                 parse k = Some d' \<and> yyyymmdd d' = yyyymmdd d))"
  unfolding keyed_iff [symmetric]
  by (cases selected) (simp_all add: selectedDates_def)

lemma isActive_selects:
  "isActive parse selected eventSlug store d =
     Inr (\<exists>e\<in>set (selectedDates parse selected eventSlug store). yyyymmdd e = yyyymmdd d)"
  unfolding selects_iff by (rule isActive_result)

text \<open>
  Claim C7. \<open>isActive\<close> handles the three shapes of a selection (an array of dates, a single
  date, the per-event object keyed by date) and decides by comparing normalized
  \<open>YYYY-MM-DD\<close> strings: it returns true exactly when one of the dates the selection names
  has the string of the day, the keys of the per-event object being parsed first. Hence two
  days with the same string get the same answer, whatever their time of day, and when no
  rendered day has the string of a selected date then the answer is false for every rendered
  day. None of the property reads and key listings raises: the answer is a boolean for every
  selection, also for a store that is null and for keys that are not dates.
\<close>

theorem isActive_by_date_string:
  "\<exists>b. isActive parse selected eventSlug store d = Inr b \<and>
       (b \<longleftrightarrow> (\<exists>e\<in>set (selectedDates parse selected eventSlug store). yyyymmdd e = yyyymmdd d)) \<and>
       (yyyymmdd d' = yyyymmdd d \<longrightarrow> isActive parse selected eventSlug store d' = Inr b) \<and>
       ((\<forall>c\<in>set cells. \<forall>x. day c = Some x \<longrightarrow>
           (\<forall>e\<in>set (selectedDates parse selected eventSlug store). yyyymmdd e \<noteq> yyyymmdd x)) \<longrightarrow>
        (\<forall>c\<in>set cells. \<forall>x. day c = Some x \<longrightarrow>
           isActive parse selected eventSlug store x = Inr False))"
  by (simp add: isActive_selects)

text \<open>
  A key that is a timestamp of 6 June 2024 activates that day and not the next one; a date
  selected at noon activates its day at midnight; an event without an entry in the store, a
  null store and a key that is not a date activate nothing.
\<close>

theorem isActive_by_date_string_witness:
  "isActive demoParse NoSelection (Some ''demo'') demoStore
     \<lparr>year = 2024, month = 5, date = 6, millis = 0\<rparr> = Inr True \<and>
   isActive demoParse NoSelection (Some ''demo'') demoStore
     \<lparr>year = 2024, month = 5, date = 7, millis = 0\<rparr> = Inr False \<and>
   isActive demoParse (DateArray [\<lparr>year = 2024, month = 5, date = 5, millis = 43200000\<rparr>]) None None
     \<lparr>year = 2024, month = 5, date = 5, millis = 0\<rparr> = Inr True \<and>
   isActive demoParse (SingleDate \<lparr>year = 2023, month = 0, date = 9, millis = 0\<rparr>) (Some ''other'') demoStore
     \<lparr>year = 2024, month = 5, date = 6, millis = 0\<rparr> = Inr False \<and>
   isActive demoParse NoSelection (Some ''demo'') None
     \<lparr>year = 2024, month = 5, date = 6, millis = 0\<rparr> = Inr False"
proof -
  note ev = selectedDates_def keyedDates_def demoParse_def demoStore_def List.map_filter_def
        yyyymmdd_def padStart_def digits.simps [of "numeral k" for k]
  have e1: "(\<exists>e\<in>set (selectedDates demoParse NoSelection (Some ''demo'') demoStore). yyyymmdd e = yyyymmdd \<lparr>year = 2024, month = 5, date = 6, millis = 0\<rparr>)"
    by (simp add: ev)
  obtain b1 where "isActive demoParse NoSelection (Some ''demo'') demoStore \<lparr>year = 2024, month = 5, date = 6, millis = 0\<rparr> = Inr b1"
    and "b1 \<longleftrightarrow> (\<exists>e\<in>set (selectedDates demoParse NoSelection (Some ''demo'') demoStore). yyyymmdd e = yyyymmdd \<lparr>year = 2024, month = 5, date = 6, millis = 0\<rparr>)"
    using isActive_by_date_string [of demoParse "NoSelection" "Some ''demo''" "demoStore" "\<lparr>year = 2024, month = 5, date = 6, millis = 0\<rparr>" "\<lparr>year = 2024, month = 5, date = 6, millis = 0\<rparr>" "[]"]
    by blast
  with e1 have r1: "isActive demoParse NoSelection (Some ''demo'') demoStore \<lparr>year = 2024, month = 5, date = 6, millis = 0\<rparr> = Inr True"
    by simp
  have e2: "\<not> (\<exists>e\<in>set (selectedDates demoParse NoSelection (Some ''demo'') demoStore). yyyymmdd e = yyyymmdd \<lparr>year = 2024, month = 5, date = 7, millis = 0\<rparr>)"
    by (simp add: ev)
  obtain b2 where "isActive demoParse NoSelection (Some ''demo'') demoStore \<lparr>year = 2024, month = 5, date = 7, millis = 0\<rparr> = Inr b2"
    and "b2 \<longleftrightarrow> (\<exists>e\<in>set (selectedDates demoParse NoSelection (Some ''demo'') demoStore). yyyymmdd e = yyyymmdd \<lparr>year = 2024, month = 5, date = 7, millis = 0\<rparr>)"
    using isActive_by_date_string [of demoParse "NoSelection" "Some ''demo''" "demoStore" "\<lparr>year = 2024, month = 5, date = 7, millis = 0\<rparr>" "\<lparr>year = 2024, month = 5, date = 7, millis = 0\<rparr>" "[]"]
    by blast
  with e2 have r2: "isActive demoParse NoSelection (Some ''demo'') demoStore \<lparr>year = 2024, month = 5, date = 7, millis = 0\<rparr> = Inr False"
    by simp
  have e3: "(\<exists>e\<in>set (selectedDates demoParse (DateArray [\<lparr>year = 2024, month = 5, date = 5, millis = 43200000\<rparr>]) None None). yyyymmdd e = yyyymmdd \<lparr>year = 2024, month = 5, date = 5, millis = 0\<rparr>)"
    by (simp add: ev)
  obtain b3 where "isActive demoParse (DateArray [\<lparr>year = 2024, month = 5, date = 5, millis = 43200000\<rparr>]) None None \<lparr>year = 2024, month = 5, date = 5, millis = 0\<rparr> = Inr b3"
    and "b3 \<longleftrightarrow> (\<exists>e\<in>set (selectedDates demoParse (DateArray [\<lparr>year = 2024, month = 5, date = 5, millis = 43200000\<rparr>]) None None). yyyymmdd e = yyyymmdd \<lparr>year = 2024, month = 5, date = 5, millis = 0\<rparr>)"
    using isActive_by_date_string [of demoParse "DateArray [\<lparr>year = 2024, month = 5, date = 5, millis = 43200000\<rparr>]" "None" "None" "\<lparr>year = 2024, month = 5, date = 5, millis = 0\<rparr>" "\<lparr>year = 2024, month = 5, date = 5, millis = 0\<rparr>" "[]"]
    by blast
  with e3 have r3: "isActive demoParse (DateArray [\<lparr>year = 2024, month = 5, date = 5, millis = 43200000\<rparr>]) None None \<lparr>year = 2024, month = 5, date = 5, millis = 0\<rparr> = Inr True"
    by simp
  have e4: "\<not> (\<exists>e\<in>set (selectedDates demoParse (SingleDate \<lparr>year = 2023, month = 0, date = 9, millis = 0\<rparr>) (Some ''other'') demoStore). yyyymmdd e = yyyymmdd \<lparr>year = 2024, month = 5, date = 6, millis = 0\<rparr>)"
    by (simp add: ev)
  obtain b4 where "isActive demoParse (SingleDate \<lparr>year = 2023, month = 0, date = 9, millis = 0\<rparr>) (Some ''other'') demoStore \<lparr>year = 2024, month = 5, date = 6, millis = 0\<rparr> = Inr b4"
    and "b4 \<longleftrightarrow> (\<exists>e\<in>set (selectedDates demoParse (SingleDate \<lparr>year = 2023, month = 0, date = 9, millis = 0\<rparr>) (Some ''other'') demoStore). yyyymmdd e = yyyymmdd \<lparr>year = 2024, month = 5, date = 6, millis = 0\<rparr>)"
    using isActive_by_date_string [of demoParse "SingleDate \<lparr>year = 2023, month = 0, date = 9, millis = 0\<rparr>" "Some ''other''" "demoStore" "\<lparr>year = 2024, month = 5, date = 6, millis = 0\<rparr>" "\<lparr>year = 2024, month = 5, date = 6, millis = 0\<rparr>" "[]"]
    by blast
  with e4 have r4: "isActive demoParse (SingleDate \<lparr>year = 2023, month = 0, date = 9, millis = 0\<rparr>) (Some ''other'') demoStore \<lparr>year = 2024, month = 5, date = 6, millis = 0\<rparr> = Inr False"
    by simp
  have e5: "\<not> (\<exists>e\<in>set (selectedDates demoParse NoSelection (Some ''demo'') None). yyyymmdd e = yyyymmdd \<lparr>year = 2024, month = 5, date = 6, millis = 0\<rparr>)"
    by (simp add: ev)
  obtain b5 where "isActive demoParse NoSelection (Some ''demo'') None \<lparr>year = 2024, month = 5, date = 6, millis = 0\<rparr> = Inr b5"
    and "b5 \<longleftrightarrow> (\<exists>e\<in>set (selectedDates demoParse NoSelection (Some ''demo'') None). yyyymmdd e = yyyymmdd \<lparr>year = 2024, month = 5, date = 6, millis = 0\<rparr>)"
    using isActive_by_date_string [of demoParse "NoSelection" "Some ''demo''" "None" "\<lparr>year = 2024, month = 5, date = 6, millis = 0\<rparr>" "\<lparr>year = 2024, month = 5, date = 6, millis = 0\<rparr>" "[]"]
    by blast
  with e5 have r5: "isActive demoParse NoSelection (Some ''demo'') None \<lparr>year = 2024, month = 5, date = 6, millis = 0\<rparr> = Inr False"
    by simp
  show ?thesis using r1 r2 r3 r4 r5 by (intro conjI)
qed

section \<open>Automatic month navigation\<close>

lemma step_clears: "\<not> autoNavigating (step cb s e)"
  by (cases e) (simp_all add: autoNavigateEffect_def changeMonth_def)

lemma run_stays_cleared: "\<not> autoNavigating s \<Longrightarrow> \<not> autoNavigating (run cb s es)"
  unfolding run_def
  by (induction es arbitrary: s) (simp_all add: step_clears)

lemma autoAdvances_flag: "autoAdvances s e \<Longrightarrow> autoNavigating s"
  by (cases e) simp_all

text \<open>
  Claim C8, as the code has it. An effect run advances to the next month exactly when
  \<open>autoNavigating\<close> is set, the availability list of the current month is empty and that of
  the next month is not empty; it then reports the browsing date plus one month. Every
  event, an effect run as well as a manual navigation, leaves \<open>autoNavigating\<close> cleared, and
  nothing sets it again. So no effect run advances after a manual navigation, and only the
  very first event of a mounted picker can be an automatic advance.
\<close>

theorem auto_navigation:
  "(autoAdvances s (EffectRun bd n0 n1) \<longleftrightarrow> autoNavigating s \<and> n0 = 0 \<and> 0 < n1) \<and>
   monthChanges (step True s (EffectRun bd n0 n1)) =
     (if autoNavigating s \<and> n0 = 0 \<and> 0 < n1 then monthChanges s @ [add_month bd 1] else monthChanges s) \<and>
   monthChanges (step True s (ManualNavigation bd k)) = monthChanges s @ [add_month bd k] \<and>
   \<not> autoNavigating (step cb s e) \<and>
   (\<forall>es1 e' es2. es = es1 @ e' # es2 \<longrightarrow>
      \<not> autoAdvances (run cb (step cb s (ManualNavigation bd k)) es1) e') \<and>
   (\<forall>es1 e' es2. es = es1 @ e' # es2 \<and> es1 \<noteq> [] \<longrightarrow> \<not> autoAdvances (run cb initialPickerState es1) e')"
proof -
  have a: "\<not> autoAdvances (run cb (step cb s (ManualNavigation bd k)) es1) e'" for es1 e'
    using run_stays_cleared [OF step_clears] autoAdvances_flag by blast
  have b: "\<not> autoAdvances (run cb initialPickerState es1) e'" if "es1 \<noteq> []" for es1 e'
  proof -
    from that obtain x xs where "es1 = x # xs" by (cases es1) auto
    then have "run cb initialPickerState es1 = run cb (step cb initialPickerState x) xs"
      by (simp add: run_def)
    then show ?thesis
      using run_stays_cleared [OF step_clears] autoAdvances_flag by metis
  qed
  show ?thesis
    using a b by (simp add: step_clears autoNavigateEffect_def changeMonth_def)
qed

text \<open>
  With an empty current month the picker advances although the next month is fully
  available (31 dates), and it does not advance when both months are empty.
\<close>

theorem auto_navigation_counterexample:
  "autoAdvances initialPickerState (EffectRun june24 0 31) \<and>
   monthChanges (step True initialPickerState (EffectRun june24 0 31)) =
     [\<lparr>year = 2024, month = 6, date = 1, millis = 0\<rparr>] \<and>
   \<not> autoAdvances initialPickerState (EffectRun june24 0 0) \<and>
   monthChanges (step True initialPickerState (EffectRun june24 0 0)) = []"
  by (simp add: initialPickerState_def autoNavigateEffect_def changeMonth_def add_month_def june24_def monthLength_def)

text \<open>A click on the next-month button, then an effect run on an empty month: one month change only.\<close>

theorem auto_navigation_witness:
  "monthChanges (run True initialPickerState
      [ManualNavigation june24 1, EffectRun \<lparr>year = 2024, month = 6, date = 1, millis = 0\<rparr> 0 5]) =
     [\<lparr>year = 2024, month = 6, date = 1, millis = 0\<rparr>] \<and>
   \<not> autoAdvances (run True (step True initialPickerState (ManualNavigation june24 1)) [])
       (EffectRun \<lparr>year = 2024, month = 6, date = 1, millis = 0\<rparr> 0 5)"
  using auto_navigation [where s = initialPickerState and bd = june24 and k = 1 and cb = True
     and es = "[EffectRun \<lparr>year = 2024, month = 6, date = 1, millis = 0\<rparr> 0 5]"]
  by (simp add: run_def initialPickerState_def autoNavigateEffect_def changeMonth_def add_month_def june24_def monthLength_def)

section \<open>Grouping the days into weeks\<close>

text \<open>
  Claim C1, as the code has it. \<open>weeks\<close> cuts the flat day sequence into consecutive groups
  of 7 with \<open>slice\<close>; the groups concatenate to the input, every group but the last has
  exactly 7 cells, and the last one is shorter when the length is not a multiple of 7: no
  null is appended. Every returned week has between 1 and 7 cells. The returned weeks are
  always a contiguous run of these groups, in order; when continuation is not active (or the
  month has no availability) all groups are returned, so that no day is dropped.
\<close>

theorem weeks_groups:
  "(\<forall>w\<in>set (weeks ds n b). 1 \<le> length w \<and> length w \<le> 7) \<and>
   concat (groupLoop ds 0 []) = ds \<and>
   (\<forall>k. Suc k < length (groupLoop ds 0 []) \<longrightarrow> length (groupLoop ds 0 [] ! k) = 7) \<and>
   (\<exists>i k. weeks ds n b = take k (drop i (groupLoop ds 0 []))) \<and>
   (n = 0 \<or> \<not> b \<longrightarrow> weeks ds n b = groupLoop ds 0 [] \<and> concat (weeks ds n b) = ds)"
proof -
  have win: "\<exists>i k. weeks ds n b = take k (drop i (chunk7 ds))"
  proof (cases "n = 0 \<or> \<not> b")
    case True
    then have "weeks ds n b = take (length (chunk7 ds)) (drop 0 (chunk7 ds))"
      by (simp add: weeks_untrimmed)
    then show ?thesis by blast
  next
    case False
    then have nb: "0 < n" "b" by simp_all
    show ?thesis
    proof (cases "\<exists>w\<in>set (chunk7 ds). hasAvailableDays w")
      case True
      have "\<exists>f m. weeks ds n True =
              (if m < 5 then take 5 (drop f (chunk7 ds)) else take m (drop f (chunk7 ds)))"
        using weeks_trim [OF nb(1) True]
        by (elim exE conjE) (rule exI, rule exI, assumption)
      then obtain f m where "weeks ds n True =
              (if m < 5 then take 5 (drop f (chunk7 ds)) else take m (drop f (chunk7 ds)))"
        by blast
      then have "weeks ds n b = take (if m < 5 then 5 else m) (drop f (chunk7 ds))"
        using nb(2) by simp
      then show ?thesis by blast
    next
      case False
      then have "weeks ds n b = take 0 (drop 0 (chunk7 ds))"
        using nb by (simp add: weeks_no_available)
      then show ?thesis by blast
    qed
  qed
  then obtain i k where ik: "weeks ds n b = take k (drop i (chunk7 ds))" by blast
  have "set (weeks ds n b) \<subseteq> set (chunk7 ds)"
    unfolding ik by (meson set_take_subset set_drop_subset subset_trans)
  then have 1: "\<forall>w\<in>set (weeks ds n b). 1 \<le> length w \<and> length w \<le> 7"
    using chunk7_lengths by blast
  show ?thesis
    using 1 win by (auto simp: groupedWeeks_eq concat_chunk7 chunk7_full weeks_untrimmed)
qed

text \<open>
  June 2024 with Sunday as week start has 6 padding cells and 30 days: five weeks of 7 and a
  last week of a single cell.
\<close>

theorem weeks_groups_counterexample:
  "map length (cd_weeks (projr (useCalendarDays (getAvailableDatesInMonth june24)
      (props_june (Some incl_two) None (Some True))))) = [7, 7, 7, 7, 7, 1]"
proof -
  obtain r where r: "useCalendarDays (getAvailableDatesInMonth june24)
      (props_june (Some incl_two) None (Some True)) = Inr r"
    using useCalendarDays_total [of "props_june (Some incl_two) None (Some True)" "getAvailableDatesInMonth june24"]
    by (auto simp: props_june_def)
  note w = weeks_june_single [OF r]
  have "map length (cd_weeks r) = map length (chunk7 (replicate 36 ()))"
    using w map_length_chunk7 [of "cd_daysToRenderForTheMonth r"] by simp
  then show ?thesis by (simp add: r lengths_36)
qed

text \<open>The same month: the weeks concatenate to the cells of the month, and the fifth week is full.\<close>

theorem weeks_groups_witness:
  "concat (cd_weeks (projr (useCalendarDays (getAvailableDatesInMonth june24)
      (props_june (Some incl_two) None (Some True))))) =
   cd_daysToRenderForTheMonth (projr (useCalendarDays (getAvailableDatesInMonth june24)
      (props_june (Some incl_two) None (Some True)))) \<and>
   length (cd_weeks (projr (useCalendarDays (getAvailableDatesInMonth june24)
      (props_june (Some incl_two) None (Some True)))) ! 4) = 7"
proof -
  obtain r where r: "useCalendarDays (getAvailableDatesInMonth june24)
      (props_june (Some incl_two) None (Some True)) = Inr r"
    using useCalendarDays_total [of "props_june (Some incl_two) None (Some True)" "getAvailableDatesInMonth june24"]
    by (auto simp: props_june_def)
  note w = weeks_june_single [OF r]
  have len: "length (chunk7 (cd_daysToRenderForTheMonth r)) = 6"
    using w by (simp add: length_chunk7)
  from weeks_groups [of "cd_daysToRenderForTheMonth r" 2 False] w len show ?thesis
    by (simp add: r weeks_untrimmed groupedWeeks_eq)
qed

section \<open>Trimming the weeks when the next month is shown\<close>

text \<open>
  Claim C3, as the code has it. Let continuation be active (the month has availability and
  the next month is rendered). If no week has an enabled cell the result is empty. Otherwise
  let \<open>f\<close> and \<open>l\<close> be the first and the last week with an enabled cell. The bounded window
  starts at \<open>f\<close>, so the leading fully-disabled weeks are dropped; it runs up to \<open>l\<close> but
  stops right after the week in which the accumulated number of enabled cells reaches 7.
  Its accumulated count is always below 14, so the second half of the guard
  \<open>boundedWeeks.length < 5 && availableDaysCount < 14\<close> never decides. If the bounded window
  has fewer than 5 weeks the result is instead the (up to) 5 consecutive weeks from \<open>f\<close> on,
  whether or not 7 enabled cells were already reached and whether or not the added weeks
  are fully disabled; otherwise the result is the bounded window, which then has 5 weeks or
  more.
\<close>

theorem weeks_window:
  assumes "0 < n"
  shows "\<exists>gw. gw = groupLoop ds 0 [] \<and>
     (\<not> (\<exists>w\<in>set gw. hasAvailableDays w) \<longrightarrow> weeks ds n True = []) \<and>
     ((\<exists>w\<in>set gw. hasAvailableDays w) \<longrightarrow>
        (\<exists>f l m. f \<le> l \<and> l < length gw \<and>
           int f = findIndex hasAvailableDays gw \<and>
           hasAvailableDays (gw ! f) \<and> (\<forall>i<f. \<not> hasAvailableDays (gw ! i)) \<and>
           hasAvailableDays (gw ! l) \<and> (\<forall>i. l < i \<and> i < length gw \<longrightarrow> \<not> hasAvailableDays (gw ! i)) \<and>
           0 < m \<and> f + m \<le> Suc l \<and>
           boundLoop gw f l ([], 0) = (take m (drop f gw), totalAvailable (take m (drop f gw))) \<and>
           totalAvailable (take (m - 1) (drop f gw)) < 7 \<and>
           (7 \<le> totalAvailable (take m (drop f gw)) \<or> f + m = Suc l) \<and>
           totalAvailable (take m (drop f gw)) < 14 \<and>
           weeks ds n True = (if m < 5 then take 5 (drop f gw) else take m (drop f gw))))"
proof -
  have a: "\<not> (\<exists>w\<in>set (chunk7 ds). hasAvailableDays w) \<longrightarrow> weeks ds n True = []"
    using assms by (simp add: weeks_no_available)
  have b: "(\<exists>w\<in>set (chunk7 ds). hasAvailableDays w) \<longrightarrow>
        (\<exists>f l m. f \<le> l \<and> l < length (chunk7 ds) \<and>
           int f = findIndex hasAvailableDays (chunk7 ds) \<and>
           hasAvailableDays (chunk7 ds ! f) \<and> (\<forall>i<f. \<not> hasAvailableDays (chunk7 ds ! i)) \<and>
           hasAvailableDays (chunk7 ds ! l) \<and>
           (\<forall>i. l < i \<and> i < length (chunk7 ds) \<longrightarrow> \<not> hasAvailableDays (chunk7 ds ! i)) \<and>
           0 < m \<and> f + m \<le> Suc l \<and>
           boundLoop (chunk7 ds) f l ([], 0) =
             (take m (drop f (chunk7 ds)), totalAvailable (take m (drop f (chunk7 ds)))) \<and>
           totalAvailable (take (m - 1) (drop f (chunk7 ds))) < 7 \<and>
           (7 \<le> totalAvailable (take m (drop f (chunk7 ds))) \<or> f + m = Suc l) \<and>
           totalAvailable (take m (drop f (chunk7 ds))) < 14 \<and>
           weeks ds n True =
             (if m < 5 then take 5 (drop f (chunk7 ds)) else take m (drop f (chunk7 ds))))"
    by (rule impI) (rule weeks_trim [OF assms])
  show ?thesis
    unfolding groupedWeeks_eq by (intro exI [of _ "chunk7 ds"] conjI refl a b)
qed

text \<open>
  Browsing June 2024 with 30 June and 1 to 6 July available: the first retained week
  (30 June to 6 July) already shows 7 available days, and yet five weeks are returned, the
  other four without any available day.
\<close>

theorem weeks_window_counterexample:
  "cd_shouldRenderNextMonth (projr (useCalendarDays (getAvailableDatesInMonth june24)
      (props_june (Some incl_cutover) None None))) \<and>
   map length (cd_weeks (projr (useCalendarDays (getAvailableDatesInMonth june24)
      (props_june (Some incl_cutover) None None)))) = [7, 7, 7, 7, 4] \<and>
   map countAvailable (cd_weeks (projr (useCalendarDays (getAvailableDatesInMonth june24)
      (props_june (Some incl_cutover) None None)))) = [7, 0, 0, 0, 0]"
proof -
  obtain r where r: "useCalendarDays (getAvailableDatesInMonth june24)
      (props_june (Some incl_cutover) None None) = Inr r"
    using useCalendarDays_total [of "props_june (Some incl_cutover) None None" "getAvailableDatesInMonth june24"]
    by (auto simp: props_june_def)
  from result_cutover [OF r] show ?thesis
    by (simp add: r weeks_cutover)
qed

text \<open>The same day sequence: the window exists, with fewer than 14 accumulated days.\<close>

theorem weeks_window_witness:
  "\<exists>f m. 0 < m \<and>
     totalAvailable (take m (drop f (groupLoop cells_cutover 0 []))) < 14 \<and>
     weeks cells_cutover (Suc 0) True =
       (if m < 5 then take 5 (drop f (groupLoop cells_cutover 0 []))
        else take m (drop f (groupLoop cells_cutover 0 [])))"
proof -
  have "0 < Suc 0" by simp
  from weeks_window [OF this, of cells_cutover] available_week_cutover
  obtain f l m where "0 < m"
    "totalAvailable (take m (drop f (groupLoop cells_cutover 0 []))) < 14"
    "weeks cells_cutover (Suc 0) True =
       (if m < 5 then take 5 (drop f (groupLoop cells_cutover 0 []))
        else take m (drop f (groupLoop cells_cutover 0 [])))"
    by auto
  then show ?thesis by blast
qed

section \<open>Which days of the month are disabled\<close>




section \<open>The week in which the month changes\<close>

text \<open>
  Claim C6, as the code has it. When the next month is rendered, the combined day sequence
  is the cells of the month followed by the non-null cells of the next month, and the weeks
  are computed from it. Let \<open>B\<close> be the number of cells of the month (padding plus days).
  Exactly one group of the combined sequence, group \<open>B div 7\<close>, has a transition index, and
  that index is \<open>B mod 7\<close>: the cell holding day 1 of the next month. In that group the
  cells before the index are padding or days of the browsed month, the cells from the index
  on are days of the next month, a month with a different month number, and the non-null
  cells are in ascending date order. When \<open>B mod 7\<close> is not 0 the cell just before the
  index is the last day of the browsed month, so that the group holds days of two months;
  when \<open>B mod 7\<close> is 0 the index is 0 and the group holds days of the next month only.
\<close>

theorem cutover_week:
  assumes "0 \<le> weekStart p" and "weekStart p \<le> 6" and "month (browsingDate p) < 12"
  shows "\<exists>r ad B gw. useCalendarDays g p = Inr r \<and>
     ad = cd_daysToRenderForTheMonth r @ filter (\<lambda>d. day d \<noteq> None) (cd_daysToRenderForNextMonth r) \<and>
     B = length (cd_daysToRenderForTheMonth r) \<and>
     B = nat ((weekdayOfFirst (browsingDate p) - weekStart p + 7) mod 7) + daysInMonth (browsingDate p) \<and>
     gw = groupLoop ad 0 [] \<and>
     (cd_shouldRenderNextMonth r \<longrightarrow>
        allDays (cd_shouldRenderNextMonth r) (cd_daysToRenderForTheMonth r) (cd_daysToRenderForNextMonth r) = ad \<and>
        cd_weeks r = weeks ad (length (cd_includedDatesInMonth r)) True) \<and>
     month (add_month (browsingDate p) 1) \<noteq> month (browsingDate p) \<and>
     B div 7 < length gw \<and>
     transitionIndex (browsingDate p) (gw ! (B div 7)) = int (B mod 7) \<and>
     (\<forall>j<length gw. j \<noteq> B div 7 \<longrightarrow> transitionIndex (browsingDate p) (gw ! j) = - 1) \<and>
     (\<forall>i<length (gw ! (B div 7)). \<forall>d. day (gw ! (B div 7) ! i) = Some d \<longrightarrow>
        (if i < B mod 7 then year d = year (browsingDate p) \<and> month d = month (browsingDate p)
         else year d = year (add_month (browsingDate p) 1) \<and> month d = month (add_month (browsingDate p) 1))) \<and>
     (\<forall>i i' d d'. i < i' \<and> i' < length (gw ! (B div 7)) \<and>
        day (gw ! (B div 7) ! i) = Some d \<and> day (gw ! (B div 7) ! i') = Some d' \<longrightarrow> date_less d d') \<and>
     (B mod 7 \<noteq> 0 \<longrightarrow>
        day (gw ! (B div 7) ! (B mod 7 - 1)) = Some (set_date (browsingDate p) (daysInMonth (browsingDate p)))) \<and>
     B mod 7 < length (gw ! (B div 7)) \<and>
     day (gw ! (B div 7) ! (B mod 7)) = Some (set_date (add_month (browsingDate p) 1) 1)"
proof -
  let ?bd = "browsingDate p"
  let ?pad = "paddingBeforeFirst ?bd (weekStart p)"
  let ?a = "g ?bd (minDate p) (included_of p)"
  let ?ad = "combinedDays ?pad ?a (excluded_of p) (included_of p) ?bd"
  let ?B = "?pad + daysInMonth ?bd"
  obtain r where r: "useCalendarDays g p = Inr r"
    and fm: "cd_daysToRenderForTheMonth r = replicate ?pad nullCell @ map (monthCell ?a (excluded_of p)) (monthDates ?bd)"
    and fn: "cd_daysToRenderForNextMonth r =
               replicate ?pad nullCell @ map (nextCell (included_of p)) (monthDates (add_month ?bd 1))"
    and im: "cd_includedDatesInMonth r = ?a"
    and wk: "cd_weeks r = weeks (allDays (cd_shouldRenderNextMonth r) (cd_daysToRenderForTheMonth r)
                (cd_daysToRenderForNextMonth r)) (length ?a) (cd_shouldRenderNextMonth r)"
    using useCalendarDays_eq [OF assms(1,2), of g] by (simp add: Let_def)
  have ad: "cd_daysToRenderForTheMonth r @ filter (\<lambda>d. day d \<noteq> None) (cd_daysToRenderForNextMonth r) = ?ad"
    by (simp add: fm fn filter_next_cells combinedDays_def)
  have B: "length (cd_daysToRenderForTheMonth r) = ?B"
    by (simp add: fm)
  have B': "?B = nat ((weekdayOfFirst ?bd - weekStart p + 7) mod 7) + daysInMonth ?bd"
    by (simp add: paddingBeforeFirst_def)
  have link: "cd_shouldRenderNextMonth r \<longrightarrow>
        allDays (cd_shouldRenderNextMonth r) (cd_daysToRenderForTheMonth r) (cd_daysToRenderForNextMonth r) = ?ad \<and>
        cd_weeks r = weeks ?ad (length (cd_includedDatesInMonth r)) True"
    using wk ad by (auto simp: allDays_def im)
  note c = cutover_combined [OF assms(3), of ?pad ?a "excluded_of p" "included_of p"]
  show ?thesis
    apply (rule exI [of _ r], rule exI [of _ ?ad], rule exI [of _ ?B], rule exI [of _ "chunk7 ?ad"])
    unfolding ad B groupedWeeks_eq
    using r link B' next_month_differs [OF assms(3)] c
    by (intro conjI) (simp_all only: refl simp_thms)
qed

text \<open>
  February 2026 with Sunday as week start fills four weeks exactly. Continuation is active,
  the fourth rendered week is the only one with a transition index, the index is 0, and all
  seven of its cells are days of March (month number 2).
\<close>

theorem cutover_week_counterexample:
  "cd_shouldRenderNextMonth (projr (useCalendarDays (getAvailableDatesInMonth feb26) props_feb)) \<and>
   map (transitionIndex feb26) (cd_weeks (projr (useCalendarDays (getAvailableDatesInMonth feb26) props_feb))) =
     [- 1, - 1, - 1, 0, - 1] \<and>
   map (map_option month \<circ> day)
     (cd_weeks (projr (useCalendarDays (getAvailableDatesInMonth feb26) props_feb)) ! 3) =
     replicate 7 (Some 2)"
proof -
  obtain r where r: "useCalendarDays (getAvailableDatesInMonth feb26) props_feb = Inr r"
    using useCalendarDays_total [of props_feb "getAvailableDatesInMonth feb26"]
    by (auto simp: props_feb_def)
  from result_feb [OF r] show ?thesis
    by (simp only: r sum.sel weeks_feb simp_thms)
qed

text \<open>
  June 2024 with Sunday as week start: 36 cells, so the month changes in group 5 at index
  1, after 30 June and with 1 July.
\<close>

theorem cutover_week_witness:
  "\<exists>r gw. useCalendarDays (getAvailableDatesInMonth june24) (props_june (Some incl_cutover) None None) = Inr r \<and>
     gw = groupLoop (cd_daysToRenderForTheMonth r @
                     filter (\<lambda>d. day d \<noteq> None) (cd_daysToRenderForNextMonth r)) 0 [] \<and>
     cd_shouldRenderNextMonth r \<and>
     transitionIndex june24 (gw ! 5) = 1 \<and>
     day (gw ! 5 ! 0) = Some (set_date june24 30) \<and>
     day (gw ! 5 ! 1) = Some (set_date july24 1)"
proof -
  let ?p = "props_june (Some incl_cutover) None None"
  have h: "0 \<le> weekStart ?p" "weekStart ?p \<le> 6" "month (browsingDate ?p) < 12"
    by (simp_all add: props_june_def june24_def)
  from cutover_week [OF h, of "getAvailableDatesInMonth june24"]
  obtain r ad B gw where r: "useCalendarDays (getAvailableDatesInMonth june24) ?p = Inr r"
    and ad: "ad = cd_daysToRenderForTheMonth r @ filter (\<lambda>d. day d \<noteq> None) (cd_daysToRenderForNextMonth r)"
    and B: "B = nat ((weekdayOfFirst (browsingDate ?p) - weekStart ?p + 7) mod 7) + daysInMonth (browsingDate ?p)"
    and gw: "gw = groupLoop ad 0 []"
    and ti: "transitionIndex (browsingDate ?p) (gw ! (B div 7)) = int (B mod 7)"
    and last: "B mod 7 \<noteq> 0 \<longrightarrow>
        day (gw ! (B div 7) ! (B mod 7 - 1)) = Some (set_date (browsingDate ?p) (daysInMonth (browsingDate ?p)))"
    and first: "day (gw ! (B div 7) ! (B mod 7)) = Some (set_date (add_month (browsingDate ?p) 1) 1)"
    by blast
  have bd: "browsingDate ?p = june24" "weekStart ?p = 0" by (simp_all add: props_june_def)
  have "B = 36"
    unfolding B bd dim_june24 by (simp add: eval_weekday june24_def)
  then have Bd: "B div 7 = 5" "B mod 7 = 1" by simp_all
  have sr: "cd_shouldRenderNextMonth r" using result_cutover [OF r] by simp
  show ?thesis
    apply (rule exI [of _ r], rule exI [of _ gw])
    using r ad gw sr ti last first
    unfolding Bd bd dim_june24 add_month_june24 by simp
qed

end
